theory Spec2Isabelle
  imports Main
begin

section \<open>The memory model\<close>

text \<open>
  The source is \<^verbatim>\<open>src/advanced-vector/vector.h\<close>: the class templates
  \<^verbatim>\<open>RawMemory<T>\<close> and \<^verbatim>\<open>Vector<T>\<close>.

  \<^item> A pointer \<^verbatim>\<open>T*\<close> is a pair (block address, offset): pointer arithmetic moves the
    offset inside one block. Block address 0 is \<^verbatim>\<open>nullptr\<close>.
  \<^item> The heap maps a block address to the slots of the block. A slot is \<open>None\<close> while it
    is raw (uninitialized) storage and \<open>Some v\<close> while an object of value \<open>v\<close> lives there.
    A block that is not allocated has no slots.
  \<^item> \<^verbatim>\<open>size_t\<close> is a natural number: a length is bounded by the memory that holds the
    elements, far below the point where \<^verbatim>\<open>size_ * 2\<close> would wrap.
  \<^item> \<^verbatim>\<open>Vector\<close> objects live in a store indexed by object identity (the value of
    \<^verbatim>\<open>this\<close>), so that \<^verbatim>\<open>this != &rhs\<close> is a comparison of identities. Local
    temporaries (\<^verbatim>\<open>new_data\<close>, \<^verbatim>\<open>new_vector\<close>, \<^verbatim>\<open>temp_obj\<close>) are values.
  \<^item> The element type \<^verbatim>\<open>T\<close> and the build flag \<^verbatim>\<open>NDEBUG\<close> are parameters. An element
    is a value: copy construction and copy assignment make an equal value; move
    construction and move assignment make an equal value and leave the source alive
    with its moved-from value.
  \<^item> Which of \<^verbatim>\<open>T\<close>'s potentially throwing operations throw is given by a schedule:
    each such operation (and each call of \<^verbatim>\<open>operator new\<close>) takes the next entry, and
    throws when it is \<open>True\<close>; an exhausted schedule never throws. An operation of
    \<^verbatim>\<open>T\<close> that throws leaves the objects it was given as they were. Destructors do
    not throw.
  \<^item> An outcome is a result, an exception (\<open>BadAlloc\<close> from \<^verbatim>\<open>operator new\<close>, \<open>Thrown\<close>
    from an operation of \<^verbatim>\<open>T\<close>), a failed assertion, or \<open>Undefined\<close>: constructing
    outside a block, reading, assigning or destroying a slot that holds no object, and
    relating pointers into different blocks are undefined behaviour.
  \<^item> Isabelle has no names that end in an underscore: the members \<^verbatim>\<open>buffer_\<close>,
    \<^verbatim>\<open>capacity_\<close>, \<^verbatim>\<open>data_\<close> and \<^verbatim>\<open>size_\<close> are the fields \<open>buffer'\<close>, \<open>capacity'\<close>,
    \<open>data'\<close> and \<open>size'\<close>.
  \<^item> Two pieces of ghost state observe what an instrumented element type would: the
    trace of element operations performed, and the objects that were still alive in
    storage when it was released or built over (their destructors never run).
\<close>

datatype error = BadAlloc | Thrown | AssertionFailed | Undefined

datatype event =
  Constructed | ValueConstructed | CopyConstructed | MoveConstructed
  | CopyAssigned | MoveAssigned | Destroyed

record 'a config =
  NDEBUG :: bool
  nothrow_move_constructible :: bool
  copy_constructible :: bool
  value_init :: 'a
  moved_from :: "'a \<Rightarrow> 'a"

record RawMemory =
  buffer' :: nat
  capacity' :: nat

record Vector =
  data' :: RawMemory
  size' :: nat

record 'a state =
  heap :: "nat \<Rightarrow> 'a option list"
  allocs :: nat
  vecs :: "nat \<Rightarrow> Vector"
  faults :: "bool list"
  trace :: "event list"
  leaked :: "'a list"

type_synonym ptr = "nat \<times> nat"

type_synonym ('a, 'r) prog = "'a state \<Rightarrow> (error + 'r) \<times> 'a state"

subsection \<open>Control: results, exceptions, unwinding\<close>

definition ret :: "'r \<Rightarrow> ('a, 'r) prog" where
  "ret x s = (Inr x, s)"

definition raise :: "error \<Rightarrow> ('a, 'r) prog" where
  "raise e s = (Inl e, s)"

definition andThen :: "('a, 'r) prog \<Rightarrow> ('r \<Rightarrow> ('a, 'q) prog) \<Rightarrow> ('a, 'q) prog" where
  "andThen m f s = (case m s of (Inl e, s') \<Rightarrow> (Inl e, s') | (Inr x, s') \<Rightarrow> f x s')"

text \<open>A state change that cannot fail (a \<^verbatim>\<open>noexcept\<close> member), as a step of a program.\<close>

definition effect :: "('a state \<Rightarrow> 'a state) \<Rightarrow> ('a, unit) prog" where
  "effect f s = (Inr (), f s)"

text \<open>
  Only C++ exceptions unwind the stack. A failed \<^verbatim>\<open>assert\<close> aborts the program and
  undefined behaviour has no meaning: neither runs destructors.
\<close>

fun is_exception :: "error \<Rightarrow> bool" where
  "is_exception BadAlloc = True"
| "is_exception Thrown = True"
| "is_exception AssertionFailed = False"
| "is_exception Undefined = False"

text \<open>
  \<open>unwinding m d\<close>: the scope of a local object whose destructor is \<open>d\<close>, for the part of
  the scope where an exception may pass: when \<open>m\<close> throws, \<open>d\<close> runs and the exception
  goes on.
\<close>

definition unwinding :: "('a, 'r) prog \<Rightarrow> ('a state \<Rightarrow> 'a state) \<Rightarrow> ('a, 'r) prog" where
  "unwinding m d s =
     (case m s of
        (Inl e, s') \<Rightarrow> (Inl e, if is_exception e then d s' else s')
      | (Inr x, s') \<Rightarrow> (Inr x, s'))"

text \<open>\<^verbatim>\<open>assert(c)\<close>: compiled out under \<^verbatim>\<open>NDEBUG\<close>.\<close>

definition assert :: "'a config \<Rightarrow> bool \<Rightarrow> ('a, unit) prog" where
  "assert T c s = (if NDEBUG T \<or> c then (Inr (), s) else (Inl AssertionFailed, s))"

text \<open>The next entry of the schedule decides whether a fallible step fails with \<open>e\<close>.\<close>

definition attempt :: "error \<Rightarrow> ('a, unit) prog" where
  "attempt e s =
     (case faults s of
        [] \<Rightarrow> (Inr (), s)
      | b # bs \<Rightarrow> (if b then Inl e else Inr (), s\<lparr>faults := bs\<rparr>))"

subsection \<open>Slots and objects\<close>

text \<open>A pointer designates a slot when it is inside an allocated block; \<^verbatim>\<open>nullptr\<close> never does.\<close>

definition in_block :: "ptr \<Rightarrow> 'a state \<Rightarrow> bool" where
  "in_block p s = (fst p \<noteq> 0 \<and> snd p < length (heap s (fst p)))"

definition cell :: "ptr \<Rightarrow> 'a state \<Rightarrow> 'a option" where
  "cell p s = (if in_block p s then heap s (fst p) ! snd p else None)"

definition store :: "ptr \<Rightarrow> 'a option \<Rightarrow> 'a state \<Rightarrow> 'a state" where
  "store p c s = s\<lparr>heap := (heap s)(fst p := (heap s (fst p))[snd p := c])\<rparr>"

definition emit :: "event \<Rightarrow> 'a state \<Rightarrow> 'a state" where
  "emit e s = s\<lparr>trace := trace s @ [e]\<rparr>"

text \<open>
  Placement new writes the new object into the slot. An object that lived there is
  built over without its destructor running.
\<close>

definition place :: "ptr \<Rightarrow> 'a \<Rightarrow> 'a state \<Rightarrow> 'a state" where
  "place p v s =
     store p (Some v)
       (case cell p s of None \<Rightarrow> s | Some old \<Rightarrow> s\<lparr>leaked := leaked s @ [old]\<rparr>)"

definition offset :: "ptr \<Rightarrow> nat \<Rightarrow> ptr" where
  "offset p k = (fst p, snd p + k)"

text \<open>\<^verbatim>\<open>new (p) T(std::forward<Args>(args)...)\<close>, where the arguments make the value \<open>x\<close>.\<close>

definition construct_at :: "ptr \<Rightarrow> 'a \<Rightarrow> ('a, ptr) prog" where
  "construct_at p x s =
     (if \<not> in_block p s then (Inl Undefined, s)
      else andThen (attempt Thrown) (\<lambda>_ s'. (Inr p, emit Constructed (place p x s'))) s)"

text \<open>\<^verbatim>\<open>new (p) T()\<close>.\<close>

definition value_construct_at :: "'a config \<Rightarrow> ptr \<Rightarrow> ('a, unit) prog" where
  "value_construct_at T p s =
     (if \<not> in_block p s then (Inl Undefined, s)
      else andThen (attempt Thrown)
             (\<lambda>_ s'. (Inr (), emit ValueConstructed (place p (value_init T) s'))) s)"

text \<open>\<^verbatim>\<open>new (p) T(*q)\<close>.\<close>

definition copy_construct_at :: "ptr \<Rightarrow> ptr \<Rightarrow> ('a, unit) prog" where
  "copy_construct_at p q s =
     (case cell q s of
        None \<Rightarrow> (Inl Undefined, s)
      | Some v \<Rightarrow>
          if \<not> in_block p s then (Inl Undefined, s)
          else andThen (attempt Thrown)
                 (\<lambda>_ s'. (Inr (), emit CopyConstructed (place p v s'))) s)"

text \<open>
  \<^verbatim>\<open>new (p) T(std::move(*q))\<close>. A move constructor declared \<^verbatim>\<open>noexcept\<close> does not
  consult the schedule. The source object stays alive, in its moved-from state.
\<close>

definition move_construct_at :: "'a config \<Rightarrow> ptr \<Rightarrow> ptr \<Rightarrow> ('a, unit) prog" where
  "move_construct_at T p q s =
     (case cell q s of
        None \<Rightarrow> (Inl Undefined, s)
      | Some v \<Rightarrow>
          if \<not> in_block p s then (Inl Undefined, s)
          else andThen (if nothrow_move_constructible T then ret () else attempt Thrown)
                 (\<lambda>_ s'. (Inr (),
                    emit MoveConstructed (store q (Some (moved_from T v)) (place p v s')))) s)"

text \<open>\<^verbatim>\<open>std::destroy_at(p)\<close>.\<close>

definition destroy_at :: "ptr \<Rightarrow> ('a, unit) prog" where
  "destroy_at p s =
     (case cell p s of
        None \<Rightarrow> (Inl Undefined, s)
      | Some v \<Rightarrow> (Inr (), emit Destroyed (store p None s)))"

text \<open>\<^verbatim>\<open>*p = *q\<close>.\<close>

definition copy_assign_at :: "ptr \<Rightarrow> ptr \<Rightarrow> ('a, unit) prog" where
  "copy_assign_at p q s =
     (case (cell p s, cell q s) of
        (Some old, Some v) \<Rightarrow>
          andThen (attempt Thrown) (\<lambda>_ s'. (Inr (), emit CopyAssigned (store p (Some v) s'))) s
      | _ \<Rightarrow> (Inl Undefined, s))"

text \<open>\<^verbatim>\<open>*p = std::move(*q)\<close>.\<close>

definition move_assign_at :: "'a config \<Rightarrow> ptr \<Rightarrow> ptr \<Rightarrow> ('a, unit) prog" where
  "move_assign_at T p q s =
     (case (cell p s, cell q s) of
        (Some old, Some v) \<Rightarrow>
          andThen (attempt Thrown)
            (\<lambda>_ s'. (Inr (),
               emit MoveAssigned (store q (Some (moved_from T v)) (store p (Some v) s')))) s
      | _ \<Rightarrow> (Inl Undefined, s))"

text \<open>\<^verbatim>\<open>*p = std::move(t)\<close> for a local object \<^verbatim>\<open>t\<close> of value \<open>x\<close>.\<close>

definition move_assign_from :: "ptr \<Rightarrow> 'a \<Rightarrow> ('a, unit) prog" where
  "move_assign_from p x s =
     (case cell p s of
        None \<Rightarrow> (Inl Undefined, s)
      | Some old \<Rightarrow>
          andThen (attempt Thrown) (\<lambda>_ s'. (Inr (), emit MoveAssigned (store p (Some x) s'))) s)"

text \<open>Reading through a reference: the object must be alive.\<close>

definition deref :: "ptr \<Rightarrow> ('a, 'a) prog" where
  "deref p s = (case cell p s of None \<Rightarrow> (Inl Undefined, s) | Some v \<Rightarrow> (Inr v, s))"

subsection \<open>The algorithms of the standard library that the source calls\<close>

text \<open>\<^verbatim>\<open>std::destroy_n(p, n)\<close>.\<close>

fun destroy_n :: "ptr \<Rightarrow> nat \<Rightarrow> ('a, unit) prog" where
  "destroy_n p 0 s = (Inr (), s)"
| "destroy_n p (Suc n) s =
     (case destroy_at p s of
        (Inl e, s') \<Rightarrow> (Inl e, s')
      | (Inr _, s') \<Rightarrow> destroy_n (offset p 1) n s')"

text \<open>
  The loop shared by \<^verbatim>\<open>std::uninitialized_copy_n\<close>, \<^verbatim>\<open>std::uninitialized_move_n\<close> and
  \<^verbatim>\<open>std::uninitialized_value_construct_n\<close>: \<open>ctor k\<close> constructs the object at \<open>dst + k\<close>;
  \<open>k\<close> objects have been constructed, \<open>n\<close> remain. When a constructor throws, the
  objects constructed so far are destroyed and the exception goes on.
\<close>

fun uninit_loop :: "(nat \<Rightarrow> ('a, unit) prog) \<Rightarrow> ptr \<Rightarrow> nat \<Rightarrow> nat \<Rightarrow> ('a, unit) prog" where
  "uninit_loop ctor dst k 0 s = (Inr (), s)"
| "uninit_loop ctor dst k (Suc n) s =
     (case ctor k s of
        (Inl e, s') \<Rightarrow> (Inl e, if is_exception e then snd (destroy_n dst k s') else s')
      | (Inr _, s') \<Rightarrow> uninit_loop ctor dst (Suc k) n s')"

definition uninitialized_copy_n :: "ptr \<Rightarrow> nat \<Rightarrow> ptr \<Rightarrow> ('a, unit) prog" where
  "uninitialized_copy_n src n dst =
     uninit_loop (\<lambda>k. copy_construct_at (offset dst k) (offset src k)) dst 0 n"

definition uninitialized_move_n :: "'a config \<Rightarrow> ptr \<Rightarrow> nat \<Rightarrow> ptr \<Rightarrow> ('a, unit) prog" where
  "uninitialized_move_n T src n dst =
     uninit_loop (\<lambda>k. move_construct_at T (offset dst k) (offset src k)) dst 0 n"

definition uninitialized_value_construct_n :: "'a config \<Rightarrow> ptr \<Rightarrow> nat \<Rightarrow> ('a, unit) prog" where
  "uninitialized_value_construct_n T dst n =
     uninit_loop (\<lambda>k. value_construct_at T (offset dst k)) dst 0 n"

text \<open>
  The forward assignment loop of \<^verbatim>\<open>std::copy\<close> and \<^verbatim>\<open>std::move\<close>:
  \<open>assign d q\<close> is \<^verbatim>\<open>*d = *q\<close> or \<^verbatim>\<open>*d = std::move(*q)\<close>.
\<close>

fun assign_loop :: "(ptr \<Rightarrow> ptr \<Rightarrow> ('a, unit) prog) \<Rightarrow> ptr \<Rightarrow> ptr \<Rightarrow> nat \<Rightarrow> ('a, unit) prog" where
  "assign_loop assign first d 0 s = (Inr (), s)"
| "assign_loop assign first d (Suc n) s =
     (case assign d first s of
        (Inl e, s') \<Rightarrow> (Inl e, s')
      | (Inr _, s') \<Rightarrow> assign_loop assign (offset first 1) (offset d 1) n s')"

text \<open>A range \<open>[first, last)\<close> whose ends are not in order in one block is undefined behaviour.\<close>

definition std_copy :: "ptr \<Rightarrow> ptr \<Rightarrow> ptr \<Rightarrow> ('a, unit) prog" where
  "std_copy first lst d_first s =
     (if fst first \<noteq> fst lst \<or> snd lst < snd first then (Inl Undefined, s)
      else assign_loop copy_assign_at first d_first (snd lst - snd first) s)"

definition std_move :: "'a config \<Rightarrow> ptr \<Rightarrow> ptr \<Rightarrow> ptr \<Rightarrow> ('a, unit) prog" where
  "std_move T first lst d_first s =
     (if fst first \<noteq> fst lst \<or> snd lst < snd first then (Inl Undefined, s)
      else assign_loop (move_assign_at T) first d_first (snd lst - snd first) s)"

text \<open>
  \<^verbatim>\<open>std::move_backward\<close>: \<^verbatim>\<open>while (first != last) *(--d_last) = std::move(*(--last));\<close>
  with \<open>n\<close> elements left to move.
\<close>

fun move_backward_loop :: "'a config \<Rightarrow> ptr \<Rightarrow> ptr \<Rightarrow> nat \<Rightarrow> ('a, unit) prog" where
  "move_backward_loop T lst d_last 0 s = (Inr (), s)"
| "move_backward_loop T lst d_last (Suc n) s =
     (case move_assign_at T (fst d_last, snd d_last - 1) (fst lst, snd lst - 1) s of
        (Inl e, s') \<Rightarrow> (Inl e, s')
      | (Inr _, s') \<Rightarrow>
          move_backward_loop T (fst lst, snd lst - 1) (fst d_last, snd d_last - 1) n s')"

definition std_move_backward :: "'a config \<Rightarrow> ptr \<Rightarrow> ptr \<Rightarrow> ptr \<Rightarrow> ('a, unit) prog" where
  "std_move_backward T first lst d_last s =
     (if fst first \<noteq> fst lst \<or> snd lst < snd first \<or> snd d_last < snd lst - snd first
      then (Inl Undefined, s)
      else move_backward_loop T lst d_last (snd lst - snd first) s)"

section \<open>RawMemory\<close>

text \<open>
  \<^verbatim>\<open>Allocate(n)\<close>: \<^verbatim>\<open>n != 0 ? operator new(n * sizeof(T)) : nullptr\<close>. A new block has
  an address never used before and \<open>n\<close> raw slots.
\<close>

definition Allocate :: "nat \<Rightarrow> ('a, nat) prog" where
  "Allocate n s =
     (if n \<noteq> 0
      then andThen (attempt BadAlloc)
             (\<lambda>_ s'. (Inr (Suc (allocs s')),
                s'\<lparr>heap := (heap s')(Suc (allocs s') := replicate n None),
                   allocs := Suc (allocs s')\<rparr>)) s
      else (Inr 0, s))"

text \<open>
  \<^verbatim>\<open>Deallocate(buf)\<close>: \<^verbatim>\<open>operator delete(buf)\<close>, which does nothing for \<^verbatim>\<open>nullptr\<close>.
  The objects still alive in the block are lost without their destructors having run.
\<close>

definition Deallocate :: "nat \<Rightarrow> 'a state \<Rightarrow> 'a state" where
  "Deallocate buf s =
     (if buf = 0 then s
      else s\<lparr>heap := (heap s)(buf := []),
             leaked := leaked s @ List.map_filter (\<lambda>c. c) (heap s buf)\<rparr>)"

definition RawMemory_default :: RawMemory where
  "RawMemory_default = \<lparr>buffer' = 0, capacity' = 0\<rparr>"

definition RawMemory_ctor :: "nat \<Rightarrow> ('a, RawMemory) prog" where
  "RawMemory_ctor capacity =
     andThen (Allocate capacity) (\<lambda>buf. ret \<lparr>buffer' = buf, capacity' = capacity\<rparr>)"

definition RawMemory_dtor :: "RawMemory \<Rightarrow> 'a state \<Rightarrow> 'a state" where
  "RawMemory_dtor m = Deallocate (buffer' m)"

text \<open>\<^verbatim>\<open>this->Swap(other)\<close> on the values of the two objects: the new values of both.\<close>

definition RawMemory_Swap :: "RawMemory \<Rightarrow> RawMemory \<Rightarrow> RawMemory \<times> RawMemory" where
  "RawMemory_Swap this other =
     (\<lparr>buffer' = buffer' other, capacity' = capacity' other\<rparr>,
      \<lparr>buffer' = buffer' this, capacity' = capacity' this\<rparr>)"

text \<open>
  The move constructor and the move assignment, on a store of \<^verbatim>\<open>RawMemory\<close> objects
  indexed by identity. The constructor starts from the default member initializers.
\<close>

definition RawMemory_move_ctor :: "nat \<Rightarrow> nat \<Rightarrow> (nat \<Rightarrow> RawMemory) \<Rightarrow> (nat \<Rightarrow> RawMemory)" where
  "RawMemory_move_ctor this other m =
     (let m0 = m(this := RawMemory_default);
          (a, b) = RawMemory_Swap (m0 this) (m0 other)
      in (m0(this := a))(other := b))"

definition RawMemory_move_assign :: "nat \<Rightarrow> nat \<Rightarrow> (nat \<Rightarrow> RawMemory) \<Rightarrow> (nat \<Rightarrow> RawMemory)" where
  "RawMemory_move_assign this rhs m =
     (if this \<noteq> rhs
      then (let (a, b) = RawMemory_Swap (m this) (m rhs) in (m(this := a))(rhs := b))
      else m)"

definition GetAddress :: "RawMemory \<Rightarrow> ptr" where
  "GetAddress m = (buffer' m, 0)"

text \<open>\<^verbatim>\<open>operator[]\<close>: a reference to the slot, after the assertion.\<close>

definition RawMemory_index :: "'a config \<Rightarrow> RawMemory \<Rightarrow> nat \<Rightarrow> ('a, ptr) prog" where
  "RawMemory_index T m index =
     andThen (assert T (index < capacity' m)) (\<lambda>_. ret (buffer' m, index))"

section \<open>Vector\<close>

definition put :: "nat \<Rightarrow> Vector \<Rightarrow> 'a state \<Rightarrow> 'a state" where
  "put this v s = s\<lparr>vecs := (vecs s)(this := v)\<rparr>"

definition Size :: "nat \<Rightarrow> 'a state \<Rightarrow> nat" where
  "Size this s = size' (vecs s this)"

definition Capacity :: "nat \<Rightarrow> 'a state \<Rightarrow> nat" where
  "Capacity this s = capacity' (data' (vecs s this))"

definition Vector_begin :: "nat \<Rightarrow> 'a state \<Rightarrow> ptr" where
  "Vector_begin this s = GetAddress (data' (vecs s this))"

definition Vector_end :: "nat \<Rightarrow> 'a state \<Rightarrow> ptr" where
  "Vector_end this s = offset (GetAddress (data' (vecs s this))) (size' (vecs s this))"

text \<open>\<^verbatim>\<open>Vector() = default\<close>: the default member initializers.\<close>

definition Vector_default :: Vector where
  "Vector_default = \<lparr>data' = RawMemory_default, size' = 0\<rparr>"

definition Vector_ctor :: "nat \<Rightarrow> 'a state \<Rightarrow> 'a state" where
  "Vector_ctor this = put this Vector_default"

text \<open>
  The copy constructor, building a local object: its value is returned. When a copy
  throws, the member \<^verbatim>\<open>data_\<close>, already constructed, is destroyed.
\<close>

definition Vector_copy :: "Vector \<Rightarrow> ('a, Vector) prog" where
  "Vector_copy other =
     andThen (RawMemory_ctor (size' other)) (\<lambda>d.
     andThen (unwinding
                (uninitialized_copy_n (GetAddress (data' other)) (size' other) (GetAddress d))
                (RawMemory_dtor d)) (\<lambda>_.
     ret \<lparr>data' = d, size' = size' other\<rparr>))"

text \<open>The destructor of a local object: \<^verbatim>\<open>std::destroy_n\<close>, then the member's destructor.\<close>

definition Vector_dtor :: "Vector \<Rightarrow> 'a state \<Rightarrow> 'a state" where
  "Vector_dtor v s = RawMemory_dtor (data' v) (snd (destroy_n (GetAddress (data' v)) (size' v) s))"

text \<open>\<^verbatim>\<open>Swap\<close> on the values of the two objects, and on two objects of the store.\<close>

definition Swap_values :: "Vector \<Rightarrow> Vector \<Rightarrow> Vector \<times> Vector" where
  "Swap_values this other =
     (let (d, od) = RawMemory_Swap (data' this) (data' other)
      in (\<lparr>data' = d, size' = size' other\<rparr>, \<lparr>data' = od, size' = size' this\<rparr>))"

definition Swap :: "nat \<Rightarrow> nat \<Rightarrow> 'a state \<Rightarrow> 'a state" where
  "Swap this other s =
     (let (a, b) = Swap_values (vecs s this) (vecs s other) in put other b (put this a s))"

text \<open>\<^verbatim>\<open>Vector(Vector &&other) noexcept { Swap(other); }\<close>\<close>

definition Vector_move :: "nat \<Rightarrow> nat \<Rightarrow> 'a state \<Rightarrow> 'a state" where
  "Vector_move this other s = Swap this other (put this Vector_default s)"

text \<open>\<^verbatim>\<open>Vector(const Vector &other)\<close> for an object of the store.\<close>

definition Vector_copy_ctor :: "nat \<Rightarrow> nat \<Rightarrow> ('a, unit) prog" where
  "Vector_copy_ctor this other s =
     andThen (Vector_copy (vecs s other)) (\<lambda>v. effect (put this v)) s"

text \<open>
  The relocation step that \<^verbatim>\<open>Reserve\<close>, \<^verbatim>\<open>EmplaceBack\<close> and \<^verbatim>\<open>Emplace\<close> all spell out:
  \<^verbatim>\<open>if constexpr (std::is_nothrow_move_constructible_v<T> || !std::is_copy_constructible_v<T>)\<close>
  \<^verbatim>\<open>std::uninitialized_move_n(...) else std::uninitialized_copy_n(...)\<close>.
\<close>

definition relocate_n :: "'a config \<Rightarrow> ptr \<Rightarrow> nat \<Rightarrow> ptr \<Rightarrow> ('a, unit) prog" where
  "relocate_n T src n dst =
     (if nothrow_move_constructible T \<or> \<not> copy_constructible T
      then uninitialized_move_n T src n dst
      else uninitialized_copy_n src n dst)"

text \<open>
  \<^verbatim>\<open>data_.Swap(new_data)\<close> followed by the end of the scope of \<^verbatim>\<open>new_data\<close>: the object
  gets the new buffer, and the destructor of the local releases the old one.
\<close>

definition commit :: "nat \<Rightarrow> RawMemory \<Rightarrow> 'a state \<Rightarrow> 'a state" where
  "commit this new_data s =
     (let v = vecs s this;
          (d, nd) = RawMemory_Swap (data' v) new_data
      in RawMemory_dtor nd (put this \<lparr>data' = d, size' = size' v\<rparr> s))"

definition Reserve :: "'a config \<Rightarrow> nat \<Rightarrow> nat \<Rightarrow> ('a, unit) prog" where
  "Reserve T this new_capacity s =
     (let v = vecs s this in
      if new_capacity \<le> capacity' (data' v) then (Inr (), s)
      else
        andThen (RawMemory_ctor new_capacity) (\<lambda>new_data.
        andThen (unwinding
                   (relocate_n T (GetAddress (data' v)) (size' v) (GetAddress new_data))
                   (RawMemory_dtor new_data)) (\<lambda>_.
        andThen (destroy_n (GetAddress (data' v)) (size' v)) (\<lambda>_.
        effect (commit this new_data)))) s)"

definition Resize :: "'a config \<Rightarrow> nat \<Rightarrow> nat \<Rightarrow> ('a, unit) prog" where
  "Resize T this new_size s =
     (let v = vecs s this in
      andThen
        (if new_size < size' v
         then destroy_n (offset (GetAddress (data' v)) new_size) (size' v - new_size)
         else
           andThen (if new_size > capacity' (data' v) then Reserve T this new_size else ret ())
             (\<lambda>_ s'. uninitialized_value_construct_n T
                        (offset (GetAddress (data' (vecs s' this))) (size' v))
                        (new_size - size' v) s'))
        (\<lambda>_. effect (\<lambda>s'. put this \<lparr>data' = data' (vecs s' this), size' = new_size\<rparr> s')) s)"

text \<open>\<^verbatim>\<open>++size_\<close>.\<close>

definition grow :: "nat \<Rightarrow> 'a state \<Rightarrow> 'a state" where
  "grow this s = put this \<lparr>data' = data' (vecs s this), size' = Suc (size' (vecs s this))\<rparr> s"

text \<open>
  \<^verbatim>\<open>EmplaceBack(args...)\<close>, where the arguments construct the value \<open>x\<close>. The result is
  the reference to the new element.
\<close>

definition EmplaceBack :: "'a config \<Rightarrow> nat \<Rightarrow> 'a \<Rightarrow> ('a, ptr) prog" where
  "EmplaceBack T this x s =
     (let v = vecs s this in
      andThen
        (if size' v \<ge> capacity' (data' v)
         then
           andThen (RawMemory_ctor (if size' v = 0 then 1 else size' v * 2)) (\<lambda>new_data.
           andThen (unwinding
                      (andThen (construct_at (offset (GetAddress new_data) (size' v)) x) (\<lambda>ptr.
                       andThen (relocate_n T (GetAddress (data' v)) (size' v) (GetAddress new_data))
                         (\<lambda>_. ret ptr)))
                      (RawMemory_dtor new_data)) (\<lambda>ptr.
           andThen (destroy_n (GetAddress (data' v)) (size' v)) (\<lambda>_.
           andThen (effect (commit this new_data)) (\<lambda>_.
           ret ptr))))
         else construct_at (offset (GetAddress (data' v)) (size' v)) x)
        (\<lambda>ptr. andThen (effect (grow this)) (\<lambda>_. ret ptr)) s)"

definition PushBack :: "'a config \<Rightarrow> nat \<Rightarrow> 'a \<Rightarrow> ('a, unit) prog" where
  "PushBack T this x = andThen (EmplaceBack T this x) (\<lambda>_. ret ())"

definition PopBack :: "nat \<Rightarrow> ('a, unit) prog" where
  "PopBack this s =
     (let v = vecs s this in
      if size' v \<noteq> 0
      then andThen (effect (put this \<lparr>data' = data' v, size' = size' v - 1\<rparr>))
             (\<lambda>_. destroy_at (offset (GetAddress (data' v)) (size' v - 1))) s
      else (Inr (), s))"

text \<open>
  \<open>scoped m d\<close>: the scope of a local object whose destructor is \<open>d\<close>: it runs when the
  scope is left, normally or by an exception.
\<close>

definition scoped :: "('a, 'r) prog \<Rightarrow> ('a state \<Rightarrow> 'a state) \<Rightarrow> ('a, 'r) prog" where
  "scoped m d s =
     (case m s of
        (Inl e, s') \<Rightarrow> (Inl e, if is_exception e then d s' else s')
      | (Inr x, s') \<Rightarrow> (Inr x, d s'))"

text \<open>
  \<^verbatim>\<open>Emplace(pos, args...)\<close>. An iterator is a pointer; comparing or subtracting pointers
  into different blocks is undefined, and so are \<^verbatim>\<open>size_ - 1\<close> at length 0 and
  \<^verbatim>\<open>size_ - distance\<close> below 0, which wrap around in the source.
\<close>

definition Emplace :: "'a config \<Rightarrow> nat \<Rightarrow> ptr \<Rightarrow> 'a \<Rightarrow> ('a, ptr) prog" where
  "Emplace T this pos x s =
     (let v = vecs s this; b = GetAddress (data' v); e = offset b (size' v) in
      if fst pos \<noteq> fst b then (Inl Undefined, s)
      else
        andThen (assert T (snd pos \<ge> snd b \<and> snd pos < snd e)) (\<lambda>_.
        let distance = snd pos - snd b in
        andThen
          (if size' v < capacity' (data' v)
           then
             (if pos = e then andThen (construct_at e x) (\<lambda>_. ret ())
              else
                andThen (attempt Thrown) (\<lambda>_.
                andThen (effect (emit Constructed)) (\<lambda>_.
                scoped
                  (if size' v = 0 then raise Undefined
                   else
                     andThen (RawMemory_index T (data' v) (size' v - 1)) (\<lambda>back.
                     andThen (move_construct_at T e back) (\<lambda>_.
                     andThen (std_move_backward T (offset b distance)
                                (offset b (size' v - 1)) e) (\<lambda>_.
                     move_assign_from (offset b distance) x))))
                  (emit Destroyed))))
           else
             andThen (RawMemory_ctor (if size' v = 0 then 1 else size' v * 2)) (\<lambda>new_data.
             andThen (unwinding
                        (andThen (construct_at (offset (GetAddress new_data) distance) x) (\<lambda>_.
                         if size' v < distance then raise Undefined
                         else
                           andThen (relocate_n T b distance (GetAddress new_data)) (\<lambda>_.
                           relocate_n T (offset b distance) (size' v - distance)
                             (offset (GetAddress new_data) (distance + 1)))))
                        (RawMemory_dtor new_data)) (\<lambda>_.
             andThen (destroy_n (GetAddress (data' v)) (size' v)) (\<lambda>_.
             effect (commit this new_data)))))
          (\<lambda>_. andThen (effect (grow this))
                 (\<lambda>_ s'. (Inr (offset (Vector_begin this s') distance), s')))) s)"

definition Insert :: "'a config \<Rightarrow> nat \<Rightarrow> ptr \<Rightarrow> 'a \<Rightarrow> ('a, ptr) prog" where
  "Insert T this pos value = Emplace T this pos value"

definition Erase :: "'a config \<Rightarrow> nat \<Rightarrow> ptr \<Rightarrow> ('a, ptr) prog" where
  "Erase T this pos s =
     (let v = vecs s this; b = GetAddress (data' v); e = offset b (size' v) in
      if fst pos \<noteq> fst b then (Inl Undefined, s)
      else
        andThen (assert T (snd pos \<ge> snd b \<and> snd pos < snd e)) (\<lambda>_.
        let shift = snd pos - snd b in
        andThen (std_move T (offset b (shift + 1)) e (offset b shift)) (\<lambda>_.
        andThen (PopBack this) (\<lambda>_ s'.
        (Inr (offset (Vector_begin this s') shift), s')))) s)"

text \<open>\<^verbatim>\<open>operator[]\<close>: a reference to the element, after the assertions.\<close>

definition Vector_index :: "'a config \<Rightarrow> nat \<Rightarrow> nat \<Rightarrow> ('a, ptr) prog" where
  "Vector_index T this index s =
     andThen (assert T (index < size' (vecs s this)))
       (\<lambda>_. RawMemory_index T (data' (vecs s this)) index) s"

definition CopyFromRhsVector :: "nat \<Rightarrow> nat \<Rightarrow> ('a, unit) prog" where
  "CopyFromRhsVector this rhs s =
     (let v = vecs s this; r = vecs s rhs in
      andThen (std_copy (GetAddress (data' r))
                 (offset (GetAddress (data' r)) (min (size' r) (size' v)))
                 (GetAddress (data' v))) (\<lambda>_.
      andThen
        (if size' r < size' v
         then destroy_n (offset (GetAddress (data' v)) (size' r)) (size' v - size' r)
         else uninitialized_copy_n (offset (GetAddress (data' r)) (size' v))
                (size' r - size' v) (offset (GetAddress (data' v)) (size' v))) (\<lambda>_.
      effect (\<lambda>s'. put this \<lparr>data' = data' (vecs s' this), size' = size' r\<rparr> s'))) s)"

text \<open>
  Copy assignment. In the first branch the local \<^verbatim>\<open>new_vector\<close> is swapped with the
  object and then destroyed, with the object's old elements and buffer.
\<close>

definition copy_assign :: "nat \<Rightarrow> nat \<Rightarrow> ('a, unit) prog" where
  "copy_assign this rhs s =
     (if this \<noteq> rhs
      then
        (if size' (vecs s rhs) > capacity' (data' (vecs s this))
         then
           andThen (Vector_copy (vecs s rhs)) (\<lambda>new_vector.
           effect (\<lambda>s'. let (a, b) = Swap_values (vecs s' this) new_vector
                         in Vector_dtor b (put this a s'))) s
         else CopyFromRhsVector this rhs s)
      else (Inr (), s))"

text \<open>Move assignment (\<^verbatim>\<open>noexcept\<close>).\<close>

definition move_assign :: "nat \<Rightarrow> nat \<Rightarrow> 'a state \<Rightarrow> 'a state" where
  "move_assign this rhs s = (if this = rhs then s else Swap this rhs s)"

text \<open>Reading element \<open>index\<close>: \<^verbatim>\<open>v[index]\<close> used as a value.\<close>

definition read_at :: "'a config \<Rightarrow> nat \<Rightarrow> nat \<Rightarrow> ('a, 'a) prog" where
  "read_at T this index = andThen (Vector_index T this index) deref"

section \<open>Specification vocabulary\<close>

text \<open>
  \<open>holds this xs s\<close>: the data model's invariant for the vector \<open>this\<close>, with \<open>xs\<close> its
  elements in order: the length is the number of elements and at most the capacity, the
  buffer is null or a block allocated earlier, its slots \<open>[0, length)\<close> hold the elements
  alive and its slots \<open>[length, capacity)\<close> are raw storage up to the end of the block.
\<close>

definition holds :: "nat \<Rightarrow> 'a list \<Rightarrow> 'a state \<Rightarrow> bool" where
  "holds this xs s =
     (size' (vecs s this) = length xs \<and>
      length xs \<le> capacity' (data' (vecs s this)) \<and>
      buffer' (data' (vecs s this)) \<le> allocs s \<and>
      (\<forall>i. in_block (buffer' (data' (vecs s this)), i) s = (i < capacity' (data' (vecs s this)))) \<and>
      (\<forall>i. cell (buffer' (data' (vecs s this)), i) s = (if i < length xs then Some (xs ! i) else None)))"

text \<open>A sequence of \<^verbatim>\<open>PushBack\<close> calls, stopping at the first that fails.\<close>

fun push_all :: "'a config \<Rightarrow> nat \<Rightarrow> 'a list \<Rightarrow> ('a, unit) prog" where
  "push_all T this [] s = (Inr (), s)"
| "push_all T this (x # xs) s =
     (case PushBack T this x s of
        (Inl e, s') \<Rightarrow> (Inl e, s')
      | (Inr _, s') \<Rightarrow> push_all T this xs s')"

text \<open>
  \<open>always R m\<close>: whatever the outcome of \<open>m\<close> (a result, an exception, a failed
  assertion), the state it leaves is related by \<open>R\<close> to the state it started from.
\<close>

definition always :: "('a state \<Rightarrow> 'a state \<Rightarrow> bool) \<Rightarrow> ('a, 'r) prog \<Rightarrow> bool" where
  "always R m = (\<forall>s. R s (snd (m s)))"

text \<open>No \<^verbatim>\<open>Vector\<close> object was changed and nothing was allocated.\<close>

definition same_objects :: "'a state \<Rightarrow> 'a state \<Rightarrow> bool" where
  "same_objects s s' = (vecs s' = vecs s \<and> allocs s' = allocs s)"

text \<open>The slots of block \<open>b\<close> are as they were.\<close>

definition untouched :: "nat \<Rightarrow> 'a state \<Rightarrow> 'a state \<Rightarrow> bool" where
  "untouched b s s' = (heap s' b = heap s b)"

text \<open>
  \<open>first_fault fs\<close>: how many fallible steps a schedule lets through before it tells
  one to throw (its length when it tells none).
\<close>

definition first_fault :: "bool list \<Rightarrow> nat" where
  "first_fault fs = length (takeWhile Not fs)"


text \<open>
  \<open>regrown this s s'\<close>: from \<open>s\<close> to \<open>s'\<close> one block was allocated, it has
  \<open>max 1 (2 * capacity)\<close> slots for the capacity that the vector had in \<open>s\<close>, and it is
  the buffer of the vector in \<open>s'\<close>, whose capacity is that number.
\<close>

definition regrown :: "nat \<Rightarrow> 'a state \<Rightarrow> 'a state \<Rightarrow> bool" where
  "regrown this s s' =
     (allocs s' = Suc (allocs s) \<and>
      length (heap s' (Suc (allocs s))) = max 1 (2 * Capacity this s) \<and>
      buffer' (data' (vecs s' this)) = Suc (allocs s) \<and>
      Capacity this s' = max 1 (2 * Capacity this s))"

section \<open>Example inputs\<close>

text \<open>
  Element types over the naturals whose moved-from value is 0: one with a
  \<^verbatim>\<open>noexcept\<close> move constructor, the same in a build with \<^verbatim>\<open>NDEBUG\<close>, one that is
  copyable with a move constructor that may throw, and one that is move-only with a
  move constructor that may throw.
\<close>

definition T_nothrow :: "nat config" where
  "T_nothrow = \<lparr>NDEBUG = False, nothrow_move_constructible = True, copy_constructible = True,
                 value_init = 0, moved_from = (\<lambda>_. 0)\<rparr>"

definition T_release :: "nat config" where
  "T_release = \<lparr>NDEBUG = True, nothrow_move_constructible = True, copy_constructible = True,
                 value_init = 0, moved_from = (\<lambda>_. 0)\<rparr>"



text \<open>
  States: nothing allocated; the vector 0 holding 10, 20 at capacity 2 (with a given
  schedule of failures); the vector 0 holding 10, 20 at capacity 3. Every other vector
  is empty.
\<close>

definition st_empty :: "nat state" where
  "st_empty = \<lparr>heap = (\<lambda>_. []), allocs = 0, vecs = (\<lambda>_. Vector_default),
               faults = [], trace = [], leaked = []\<rparr>"

definition st_full :: "bool list \<Rightarrow> nat state" where
  "st_full fs = \<lparr>heap = (\<lambda>_. [])(1 := [Some 10, Some 20]), allocs = 1,
          vecs = (\<lambda>_. Vector_default)(0 := \<lparr>data' = \<lparr>buffer' = 1, capacity' = 2\<rparr>, size' = 2\<rparr>),
          faults = fs, trace = [], leaked = []\<rparr>"

definition st_spare :: "nat state" where
  "st_spare = \<lparr>heap = (\<lambda>_. [])(1 := [Some 10, Some 20, None]), allocs = 1,
          vecs = (\<lambda>_. Vector_default)(0 := \<lparr>data' = \<lparr>buffer' = 1, capacity' = 3\<rparr>, size' = 2\<rparr>),
          faults = [], trace = [], leaked = []\<rparr>"

text \<open>Two \<^verbatim>\<open>RawMemory\<close> objects that own buffers.\<close>

definition raws :: "nat \<Rightarrow> RawMemory" where
  "raws = (\<lambda>_. RawMemory_default)(0 := \<lparr>buffer' = 5, capacity' = 3\<rparr>,
                                     1 := \<lparr>buffer' = 7, capacity' = 4\<rparr>)"

text \<open>Three pushes onto a new vector.\<close>

definition pushed :: "(error + unit) \<times> nat state" where
  "pushed = push_all T_nothrow 0 [10, 20, 30] (Vector_ctor 0 st_empty)"


section \<open>Verification\<close>

subsection \<open>Control\<close>

lemma andThen_Inr:
  "andThen m f s = (Inr y, s') \<longleftrightarrow> (\<exists>x s1. m s = (Inr x, s1) \<and> f x s1 = (Inr y, s'))"
  by (auto simp: andThen_def split: prod.splits sum.splits)

lemma andThen_Inl:
  "andThen m f s = (Inl e, s') \<longleftrightarrow>
     m s = (Inl e, s') \<or> (\<exists>x s1. m s = (Inr x, s1) \<and> f x s1 = (Inl e, s'))"
  by (auto simp: andThen_def split: prod.splits sum.splits)

lemma unwinding_Inr: "unwinding m d s = (Inr y, s') \<longleftrightarrow> m s = (Inr y, s')"
  by (auto simp: unwinding_def split: prod.splits sum.splits)

lemma unwinding_Inl:
  "unwinding m d s = (Inl e, s') \<longleftrightarrow>
     (\<exists>s1. m s = (Inl e, s1) \<and> s' = (if is_exception e then d s1 else s1))"
  by (auto simp: unwinding_def split: prod.splits sum.splits)

lemma scoped_Inr: "scoped m d s = (Inr y, s') \<longleftrightarrow> (\<exists>s1. m s = (Inr y, s1) \<and> s' = d s1)"
  by (auto simp: scoped_def split: prod.splits sum.splits)

lemma effect_eq: "effect f s = (r, s') \<longleftrightarrow> r = Inr () \<and> s' = f s"
  by (auto simp: effect_def)

lemma ret_eq: "ret x s = (r, s') \<longleftrightarrow> r = Inr x \<and> s' = s"
  by (auto simp: ret_def)

lemma raise_eq: "raise e s = (r, s') \<longleftrightarrow> r = Inl e \<and> s' = s"
  by (auto simp: raise_def)

lemma assert_Inr: "assert T c s = (Inr u, s') \<longleftrightarrow> (NDEBUG T \<or> c) \<and> s' = s"
  by (auto simp: assert_def)

lemma attempt_Inr: "attempt e s = (Inr u, s') \<longleftrightarrow>
   (faults s = [] \<or> hd (faults s) = False) \<and> s' = s\<lparr>faults := tl (faults s)\<rparr>"
  by (cases "faults s") (auto simp: attempt_def)

subsection \<open>Slots\<close>

lemma store_proj [simp]:
  "vecs (store p c s) = vecs s" "allocs (store p c s) = allocs s" "faults (store p c s) = faults s"
  "trace (store p c s) = trace s" "leaked (store p c s) = leaked s"
  by (simp_all add: store_def)

lemma emit_proj [simp]:
  "vecs (emit e s) = vecs s" "allocs (emit e s) = allocs s" "faults (emit e s) = faults s"
  "trace (emit e s) = trace s @ [e]" "leaked (emit e s) = leaked s" "heap (emit e s) = heap s"
  by (simp_all add: emit_def)

lemma in_block_emit [simp]: "in_block q (emit e s) = in_block q s"
  by (simp add: in_block_def)

lemma cell_emit [simp]: "cell q (emit e s) = cell q s"
  by (simp add: cell_def)

lemma in_block_store [simp]: "in_block q (store p c s) = in_block q s"
  by (simp add: in_block_def store_def)

lemma cell_store: "in_block p s \<Longrightarrow> cell q (store p c s) = (if q = p then c else cell q s)"
  by (cases p; cases q) (auto simp: cell_def in_block_def store_def)

lemma cell_store_live:
  "cell p s \<noteq> None \<Longrightarrow> cell q (store p c s) = (if q = p then c else cell q s)"
  by (rule cell_store) (auto simp: cell_def split: if_splits)

lemma in_block_faults [simp]: "in_block q (s\<lparr>faults := f\<rparr>) = in_block q s"
  by (simp add: in_block_def)

lemma cell_faults [simp]: "cell q (s\<lparr>faults := f\<rparr>) = cell q s"
  by (simp add: cell_def)

lemma in_block_leaked [simp]: "in_block q (s\<lparr>leaked := f\<rparr>) = in_block q s"
  by (simp add: in_block_def)

lemma cell_leaked [simp]: "cell q (s\<lparr>leaked := f\<rparr>) = cell q s"
  by (simp add: cell_def)

lemma in_block_vecs [simp]: "in_block q (s\<lparr>vecs := f\<rparr>) = in_block q s"
  by (simp add: in_block_def)

lemma cell_vecs [simp]: "cell q (s\<lparr>vecs := f\<rparr>) = cell q s"
  by (simp add: cell_def)

lemma place_proj [simp]:
  "vecs (place p v s) = vecs s" "allocs (place p v s) = allocs s" "faults (place p v s) = faults s"
  "trace (place p v s) = trace s"
  "leaked (place p v s) = leaked s @ (case cell p s of None \<Rightarrow> [] | Some old \<Rightarrow> [old])"
  by (simp_all add: place_def split: option.splits)

lemma in_block_place [simp]: "in_block q (place p v s) = in_block q s"
  by (simp add: place_def split: option.splits)

lemma cell_place: "in_block p s \<Longrightarrow> cell q (place p v s) = (if q = p then Some v else cell q s)"
  by (simp add: place_def cell_store split: option.splits)

lemma cell_Some_in_block: "cell p s = Some v \<Longrightarrow> in_block p s"
  by (auto simp: cell_def split: if_splits)

text \<open>What a successful element operation did.\<close>

lemma construct_at_Inr:
  assumes "construct_at p x s = (Inr r, s')"
  shows "r = p" "in_block p s" "cell q s' = (if q = p then Some x else cell q s)"
    "in_block q s' = in_block q s" "vecs s' = vecs s" "allocs s' = allocs s"
    "trace s' = trace s @ [Constructed]" "faults s' = tl (faults s)"
    "leaked s' = leaked s @ (case cell p s of None \<Rightarrow> [] | Some old \<Rightarrow> [old])"
  using assms
  by (auto simp: construct_at_def andThen_Inr attempt_Inr cell_place split: if_splits)

lemma value_construct_at_Inr:
  assumes "value_construct_at T p s = (Inr r, s')"
  shows "in_block p s" "cell q s' = (if q = p then Some (value_init T) else cell q s)"
    "in_block q s' = in_block q s" "vecs s' = vecs s" "allocs s' = allocs s"
    "trace s' = trace s @ [ValueConstructed]" "faults s' = tl (faults s)"
    "leaked s' = leaked s @ (case cell p s of None \<Rightarrow> [] | Some old \<Rightarrow> [old])"
  using assms
  by (auto simp: value_construct_at_def andThen_Inr attempt_Inr cell_place split: if_splits)

lemma copy_construct_at_Inr:
  assumes "copy_construct_at p q s = (Inr r, s')"
  shows "in_block p s" "cell q s \<noteq> None"
    "cell t s' = (if t = p then cell q s else cell t s)"
    "in_block t s' = in_block t s" "vecs s' = vecs s" "allocs s' = allocs s"
    "trace s' = trace s @ [CopyConstructed]" "faults s' = tl (faults s)"
    "leaked s' = leaked s @ (case cell p s of None \<Rightarrow> [] | Some old \<Rightarrow> [old])"
  using assms
  by (auto simp: copy_construct_at_def andThen_Inr attempt_Inr cell_place
      split: if_splits option.splits)

lemma move_construct_at_Inr:
  assumes "move_construct_at T p q s = (Inr r, s')"
  shows "in_block p s" "cell q s \<noteq> None"
    "cell t s' = (if t = q then map_option (moved_from T) (cell q s)
                  else if t = p then cell q s else cell t s)"
    "in_block t s' = in_block t s" "vecs s' = vecs s" "allocs s' = allocs s"
    "trace s' = trace s @ [MoveConstructed]"
    "leaked s' = leaked s @ (case cell p s of None \<Rightarrow> [] | Some old \<Rightarrow> [old])"
  using assms
  by (auto simp: move_construct_at_def andThen_Inr attempt_Inr ret_eq cell_place cell_store
      cell_store_live split: if_splits option.splits)

lemma destroy_at_Inr:
  assumes "destroy_at p s = (Inr r, s')"
  shows "cell p s \<noteq> None" "cell t s' = (if t = p then None else cell t s)"
    "in_block t s' = in_block t s" "vecs s' = vecs s" "allocs s' = allocs s"
    "trace s' = trace s @ [Destroyed]" "faults s' = faults s" "leaked s' = leaked s"
  using assms
  by (auto simp: destroy_at_def cell_store_live split: option.splits)

lemma move_assign_at_Inr:
  assumes "move_assign_at T p q s = (Inr r, s')"
  shows "cell p s \<noteq> None" "cell q s \<noteq> None"
    "cell t s' = (if t = q then map_option (moved_from T) (cell q s)
                  else if t = p then cell q s else cell t s)"
    "in_block t s' = in_block t s" "vecs s' = vecs s" "allocs s' = allocs s"
    "trace s' = trace s @ [MoveAssigned]" "faults s' = tl (faults s)" "leaked s' = leaked s"
  using assms
  by (auto simp: move_assign_at_def andThen_Inr attempt_Inr cell_store_live
      split: option.splits)

lemma copy_assign_at_Inr:
  assumes "copy_assign_at p q s = (Inr r, s')"
  shows "cell p s \<noteq> None" "cell q s \<noteq> None"
    "cell t s' = (if t = p then cell q s else cell t s)"
    "in_block t s' = in_block t s" "vecs s' = vecs s" "allocs s' = allocs s"
    "trace s' = trace s @ [CopyAssigned]" "faults s' = tl (faults s)" "leaked s' = leaked s"
  using assms
  by (auto simp: copy_assign_at_def andThen_Inr attempt_Inr cell_store_live
      split: option.splits)

lemma move_assign_from_Inr:
  assumes "move_assign_from p x s = (Inr r, s')"
  shows "cell p s \<noteq> None"
    "cell t s' = (if t = p then Some x else cell t s)"
    "in_block t s' = in_block t s" "vecs s' = vecs s" "allocs s' = allocs s"
    "trace s' = trace s @ [MoveAssigned]" "faults s' = tl (faults s)" "leaked s' = leaked s"
  using assms
  by (auto simp: move_assign_from_def andThen_Inr attempt_Inr cell_store_live
      split: option.splits)

subsection \<open>Loop invariants\<close>

lemma offset_simps [simp]:
  "fst (offset p k) = fst p" "snd (offset p k) = snd p + k" "offset p 0 = p"
  "offset (offset p j) k = offset p (j + k)"
  by (simp_all add: offset_def)

lemma GetAddress_simps [simp]: "fst (GetAddress m) = buffer' m" "snd (GetAddress m) = 0"
  by (simp_all add: GetAddress_def)

lemma uninit_loop_Inr_inv:
  assumes "uninit_loop ctor dst k n s = (Inr r, s')" and "I k s"
    and "\<And>j t t'. \<lbrakk>k \<le> j; j < k + n; I j t; ctor j t = (Inr (), t')\<rbrakk> \<Longrightarrow> I (Suc j) t'"
  shows "I (k + n) s'"
  using assms
proof (induction n arbitrary: k s)
  case 0
  then show ?case by simp
next
  case (Suc n)
  from Suc.prems(1) obtain s1 where c: "ctor k s = (Inr (), s1)"
    and l: "uninit_loop ctor dst (Suc k) n s1 = (Inr r, s')"
    by (auto split: prod.splits sum.splits)
  have "I (Suc k) s1" using Suc.prems(2,3) c by simp
  from Suc.IH [OF l this] Suc.prems(3) show ?case by simp
qed

lemma destroy_n_Inr_inv:
  assumes "destroy_n p n s = (Inr r, s')" and "I 0 s"
    and "\<And>j t t'. \<lbrakk>j < n; I j t; destroy_at (offset p j) t = (Inr (), t')\<rbrakk> \<Longrightarrow> I (Suc j) t'"
  shows "I n s'"
  using assms
proof (induction n arbitrary: p s I)
  case 0
  then show ?case by simp
next
  case (Suc n)
  from Suc.prems(1) obtain s1 where c: "destroy_at p s = (Inr (), s1)"
    and l: "destroy_n (offset p 1) n s1 = (Inr r, s')"
    by (auto split: prod.splits sum.splits)
  have i1: "I (Suc 0) s1" using Suc.prems(2) Suc.prems(3) [of 0 s s1] c by simp
  show ?case
  proof (rule Suc.IH [OF l, where I = "\<lambda>j. I (Suc j)"])
    show "I (Suc 0) s1" by (rule i1)
  next
    fix j t t'
    assume "j < n" "I (Suc j) t" "destroy_at (offset (offset p 1) j) t = (Inr (), t')"
    then show "I (Suc (Suc j)) t'" using Suc.prems(3) [of "Suc j" t t'] by simp
  qed
qed

lemma assign_loop_Inr_inv:
  assumes "assign_loop assign first d n s = (Inr r, s')" and "I 0 s"
    and "\<And>j t t'. \<lbrakk>j < n; I j t; assign (offset d j) (offset first j) t = (Inr (), t')\<rbrakk>
           \<Longrightarrow> I (Suc j) t'"
  shows "I n s'"
  using assms
proof (induction n arbitrary: first d s I)
  case 0
  then show ?case by simp
next
  case (Suc n)
  from Suc.prems(1) obtain s1 where c: "assign d first s = (Inr (), s1)"
    and l: "assign_loop assign (offset first 1) (offset d 1) n s1 = (Inr r, s')"
    by (auto split: prod.splits sum.splits)
  have i1: "I (Suc 0) s1" using Suc.prems(2) Suc.prems(3) [of 0 s s1] c by simp
  show ?case
  proof (rule Suc.IH [OF l, where I = "\<lambda>j. I (Suc j)"])
    show "I (Suc 0) s1" by (rule i1)
  next
    fix j t t'
    assume "j < n" "I (Suc j) t"
      "assign (offset (offset d 1) j) (offset (offset first 1) j) t = (Inr (), t')"
    then show "I (Suc (Suc j)) t'" using Suc.prems(3) [of "Suc j" t t'] by simp
  qed
qed

lemma move_backward_loop_Inr_inv:
  assumes "move_backward_loop T lst d_last n s = (Inr r, s')" and "I 0 s"
    and "\<And>j t t'. \<lbrakk>j < n; I j t;
            move_assign_at T (fst d_last, snd d_last - Suc j) (fst lst, snd lst - Suc j) t = (Inr (), t')\<rbrakk>
           \<Longrightarrow> I (Suc j) t'"
  shows "I n s'"
  using assms
proof (induction n arbitrary: lst d_last s I)
  case 0
  then show ?case by simp
next
  case (Suc n)
  from Suc.prems(1) obtain s1 where
    c: "move_assign_at T (fst d_last, snd d_last - 1) (fst lst, snd lst - 1) s = (Inr (), s1)"
    and l: "move_backward_loop T (fst lst, snd lst - 1) (fst d_last, snd d_last - 1) n s1 = (Inr r, s')"
    by (auto split: prod.splits sum.splits)
  have i1: "I (Suc 0) s1" using Suc.prems(2) Suc.prems(3) [of 0 s s1] c by simp
  show ?case
  proof (rule Suc.IH [OF l, where I = "\<lambda>j. I (Suc j)"])
    show "I (Suc 0) s1" by (rule i1)
  next
    fix j t t'
    assume "j < n" "I (Suc j) t"
      "move_assign_at T (fst (fst d_last, snd d_last - 1), snd (fst d_last, snd d_last - 1) - Suc j)
         (fst (fst lst, snd lst - 1), snd (fst lst, snd lst - 1) - Suc j) t = (Inr (), t')"
    then show "I (Suc (Suc j)) t'" using Suc.prems(3) [of "Suc j" t t'] by simp
  qed
qed

subsection \<open>Facts that hold in every outcome\<close>

lemma alwaysD: "always R m \<Longrightarrow> m s = (r, s') \<Longrightarrow> R s s'"
  by (auto simp: always_def dest: spec [of _ s])

lemma always_ret: "reflp R \<Longrightarrow> always R (ret x)"
  by (simp add: always_def ret_def reflpD)

lemma always_raise: "reflp R \<Longrightarrow> always R (raise e)"
  by (simp add: always_def raise_def reflpD)

lemma always_assert: "reflp R \<Longrightarrow> always R (assert T c)"
  by (simp add: always_def assert_def reflpD)

lemma always_effect: "(\<And>s. R s (f s)) \<Longrightarrow> always R (effect f)"
  by (simp add: always_def effect_def)

lemma always_andThen:
  assumes "transp R" "always R m" "\<And>x. always R (f x)"
  shows "always R (andThen m f)"
  unfolding always_def
proof
  fix s
  show "R s (snd (andThen m f s))"
  proof (cases "m s")
    case (Pair r s1)
    have a: "R s s1" using assms(2) Pair by (rule alwaysD)
    show ?thesis
    proof (cases r)
      case (Inl e)
      with Pair a show ?thesis by (simp add: andThen_def)
    next
      case (Inr x)
      have "R s1 (snd (f x s1))" using assms(3) by (simp add: always_def)
      with a have "R s (snd (f x s1))" using assms(1) by (blast dest: transpD)
      with Pair Inr show ?thesis by (simp add: andThen_def)
    qed
  qed
qed

lemma always_unwinding:
  assumes "transp R" "always R m" "\<And>s. R s (d s)"
  shows "always R (unwinding m d)"
  unfolding always_def
proof
  fix s
  obtain r s1 where p: "m s = (r, s1)" by (cases "m s")
  have a: "R s s1" using assms(2) p by (rule alwaysD)
  have "R s (d s1)" using a assms(3) [of s1] assms(1) by (blast dest: transpD)
  with a p show "R s (snd (unwinding m d s))"
    by (cases r) (simp_all add: unwinding_def)
qed

lemma always_scoped:
  assumes "transp R" "always R m" "\<And>s. R s (d s)"
  shows "always R (scoped m d)"
  unfolding always_def
proof
  fix s
  obtain r s1 where p: "m s = (r, s1)" by (cases "m s")
  have a: "R s s1" using assms(2) p by (rule alwaysD)
  have "R s (d s1)" using a assms(3) [of s1] assms(1) by (blast dest: transpD)
  with a p show "R s (snd (scoped m d s))"
    by (cases r) (simp_all add: scoped_def)
qed

lemma always_if: "always R a \<Longrightarrow> always R b \<Longrightarrow> always R (if c then a else b)"
  by simp

lemma always_reads: "(\<And>a. always R (g a)) \<Longrightarrow> always R (\<lambda>s. g (h s) s)"
  by (simp add: always_def)

lemma always_destroy_n_from:
  assumes "reflp R" "transp R" "\<And>i. always R (destroy_at (b, i))"
  shows "R s (snd (destroy_n (b, i) n s))"
proof (induction n arbitrary: i s)
  case 0
  then show ?case using assms(1) by (simp add: reflpD)
next
  case (Suc n)
  obtain r s1 where c: "destroy_at (b, i) s = (r, s1)" by (cases "destroy_at (b, i) s")
  have a: "R s s1" using assms(3) c by (rule alwaysD)
  show ?case
  proof (cases r)
    case (Inl e)
    with c a show ?thesis by simp
  next
    case (Inr x)
    have "R s1 (snd (destroy_n (b, Suc i) n s1))" by (rule Suc.IH)
    with a have "R s (snd (destroy_n (b, Suc i) n s1))" using assms(2) by (blast dest: transpD)
    with c Inr show ?thesis by (simp add: offset_def)
  qed
qed

lemma always_destroy_n:
  assumes "reflp R" "transp R" "\<And>i. always R (destroy_at (fst p, i))"
  shows "always R (destroy_n p n)"
  using always_destroy_n_from [OF assms, of _ "snd p" n] by (simp add: always_def)

lemma always_uninit_loop:
  assumes "reflp R" "transp R" "\<And>i. always R (destroy_at (fst dst, i))" "\<And>j. always R (ctor j)"
  shows "always R (uninit_loop ctor dst k n)"
  unfolding always_def
proof
  fix s
  show "R s (snd (uninit_loop ctor dst k n s))"
  proof (induction n arbitrary: k s)
    case 0
    then show ?case using assms(1) by (simp add: reflpD)
  next
    case (Suc n)
    obtain r s1 where c: "ctor k s = (r, s1)" by (cases "ctor k s")
    have a: "R s s1" using assms(4) c by (rule alwaysD)
    show ?case
    proof (cases r)
      case (Inl e)
      have "always R (destroy_n dst k)" using assms(1,2,3) by (rule always_destroy_n)
      then have "R s1 (snd (destroy_n dst k s1))" by (simp add: always_def)
      with a have "R s (snd (destroy_n dst k s1))" using assms(2) by (blast dest: transpD)
      with c Inl a show ?thesis by simp
    next
      case (Inr x)
      have "R s1 (snd (uninit_loop ctor dst (Suc k) n s1))" by (rule Suc.IH)
      with a have "R s (snd (uninit_loop ctor dst (Suc k) n s1))"
        using assms(2) by (blast dest: transpD)
      with c Inr show ?thesis by simp
    qed
  qed
qed

lemma always_assign_loop:
  assumes "reflp R" "transp R" "\<And>p q. always R (assign p q)"
  shows "always R (assign_loop assign first d n)"
  unfolding always_def
proof
  fix s
  show "R s (snd (assign_loop assign first d n s))"
  proof (induction n arbitrary: first d s)
    case 0
    then show ?case using assms(1) by (simp add: reflpD)
  next
    case (Suc n)
    obtain r s1 where c: "assign d first s = (r, s1)" by (cases "assign d first s")
    have a: "R s s1" using assms(3) c by (rule alwaysD)
    show ?case
    proof (cases r)
      case (Inl e)
      with c a show ?thesis by simp
    next
      case (Inr x)
      have "R s1 (snd (assign_loop assign (offset first 1) (offset d 1) n s1))" by (rule Suc.IH)
      with a have "R s (snd (assign_loop assign (offset first 1) (offset d 1) n s1))"
        using assms(2) by (blast dest: transpD)
      with c Inr show ?thesis by simp
    qed
  qed
qed

lemma always_move_backward_loop:
  assumes "reflp R" "transp R" "\<And>p q. always R (move_assign_at T p q)"
  shows "always R (move_backward_loop T lst d_last n)"
  unfolding always_def
proof
  fix s
  show "R s (snd (move_backward_loop T lst d_last n s))"
  proof (induction n arbitrary: lst d_last s)
    case 0
    then show ?case using assms(1) by (simp add: reflpD)
  next
    case (Suc n)
    obtain r s1 where c: "move_assign_at T (fst d_last, snd d_last - 1) (fst lst, snd lst - 1) s = (r, s1)"
      by (cases "move_assign_at T (fst d_last, snd d_last - 1) (fst lst, snd lst - 1) s")
    have a: "R s s1" using assms(3) c by (rule alwaysD)
    show ?case
    proof (cases r)
      case (Inl e)
      with c a show ?thesis by simp
    next
      case (Inr x)
      have "R s1 (snd (move_backward_loop T (fst lst, snd lst - 1) (fst d_last, snd d_last - 1) n s1))"
        by (rule Suc.IH)
      with a have "R s (snd (move_backward_loop T (fst lst, snd lst - 1) (fst d_last, snd d_last - 1) n s1))"
        using assms(2) by (blast dest: transpD)
      with c Inr show ?thesis by simp
    qed
  qed
qed

named_theorems so_intros

lemma same_objects_refl [so_intros]: "reflp same_objects"
  by (simp add: reflp_def same_objects_def)

lemma same_objects_trans [so_intros]: "transp same_objects"
  by (simp add: transp_def same_objects_def)

lemma so_attempt [so_intros]: "always same_objects (attempt e)"
  by (simp add: always_def same_objects_def attempt_def split: list.splits)

lemma so_construct_at [so_intros]: "always same_objects (construct_at p x)"
  by (simp add: always_def same_objects_def construct_at_def andThen_def attempt_def
      split: list.splits)

lemma so_value_construct_at [so_intros]: "always same_objects (value_construct_at T p)"
  by (simp add: always_def same_objects_def value_construct_at_def andThen_def attempt_def
      split: list.splits)

lemma so_copy_construct_at [so_intros]: "always same_objects (copy_construct_at p q)"
  by (simp add: always_def same_objects_def copy_construct_at_def andThen_def attempt_def
      split: list.splits option.splits)

lemma so_move_construct_at [so_intros]: "always same_objects (move_construct_at T p q)"
  by (simp add: always_def same_objects_def move_construct_at_def andThen_def attempt_def ret_def
      split: list.splits option.splits)

lemma so_destroy_at [so_intros]: "always same_objects (destroy_at p)"
  by (simp add: always_def same_objects_def destroy_at_def split: option.splits)

lemma so_copy_assign_at [so_intros]: "always same_objects (copy_assign_at p q)"
  by (simp add: always_def same_objects_def copy_assign_at_def andThen_def attempt_def
      split: list.splits option.splits)

lemma so_move_assign_at [so_intros]: "always same_objects (move_assign_at T p q)"
  by (simp add: always_def same_objects_def move_assign_at_def andThen_def attempt_def
      split: list.splits option.splits)

lemma so_move_assign_from [so_intros]: "always same_objects (move_assign_from p x)"
  by (simp add: always_def same_objects_def move_assign_from_def andThen_def attempt_def
      split: list.splits option.splits)

lemma so_Deallocate [so_intros]: "same_objects s (Deallocate b s)"
  by (simp add: same_objects_def Deallocate_def)

lemma so_RawMemory_dtor [so_intros]: "same_objects s (RawMemory_dtor m s)"
  by (simp add: RawMemory_dtor_def so_Deallocate)

lemma so_emit [so_intros]: "same_objects s (emit e s)"
  by (simp add: same_objects_def)

lemmas always_intros =
  always_ret always_raise always_assert always_andThen always_unwinding always_scoped
  always_destroy_n always_uninit_loop always_assign_loop always_move_backward_loop

lemma so_destroy_n [so_intros]: "always same_objects (destroy_n p n)"
  by (intro always_intros so_intros)

lemma so_uninitialized_copy_n [so_intros]: "always same_objects (uninitialized_copy_n src n dst)"
  unfolding uninitialized_copy_n_def by (intro always_intros so_intros)

lemma so_uninitialized_move_n [so_intros]: "always same_objects (uninitialized_move_n T src n dst)"
  unfolding uninitialized_move_n_def by (intro always_intros so_intros)

lemma so_uninitialized_value_construct_n [so_intros]:
  "always same_objects (uninitialized_value_construct_n T dst n)"
  unfolding uninitialized_value_construct_n_def by (intro always_intros so_intros)

lemma so_relocate_n [so_intros]: "always same_objects (relocate_n T src n dst)"
  unfolding relocate_n_def by (simp add: so_intros)

lemma so_std_copy [so_intros]: "always same_objects (std_copy first lst d)"
proof -
  have "always same_objects (assign_loop copy_assign_at first d n)" for n
    by (intro always_intros so_intros)
  then show ?thesis
    by (auto simp: always_def std_copy_def same_objects_def)
qed

lemma so_std_move [so_intros]: "always same_objects (std_move T first lst d)"
proof -
  have "always same_objects (assign_loop (move_assign_at T) first d n)" for n
    by (intro always_intros so_intros)
  then show ?thesis
    by (auto simp: always_def std_move_def same_objects_def)
qed

lemma so_std_move_backward [so_intros]: "always same_objects (std_move_backward T first lst d)"
proof -
  have "always same_objects (move_backward_loop T lst d n)" for n
    by (intro always_intros so_intros)
  then show ?thesis
    by (auto simp: always_def std_move_backward_def same_objects_def)
qed

lemma so_RawMemory_index [so_intros]: "always same_objects (RawMemory_index T m i)"
  unfolding RawMemory_index_def by (intro always_intros so_intros)

lemma soD:
  "always same_objects m \<Longrightarrow> m s = (r, s') \<Longrightarrow> vecs s' = vecs s \<and> allocs s' = allocs s"
  by (drule (1) alwaysD) (simp add: same_objects_def)

lemma andThen_eq:
  "andThen m f s = (r, s') \<longleftrightarrow>
     (\<exists>e. m s = (Inl e, s') \<and> r = Inl e) \<or> (\<exists>x s1. m s = (Inr x, s1) \<and> f x s1 = (r, s'))"
  by (auto simp: andThen_def split: prod.splits sum.splits)

lemma RawMemory_ctor_Inr:
  assumes "RawMemory_ctor n s = (Inr m, s')"
  shows "m = \<lparr>buffer' = (if n = 0 then 0 else Suc (allocs s)), capacity' = n\<rparr>"
    "allocs s' = (if n = 0 then allocs s else Suc (allocs s))"
    "in_block q s' = (if n \<noteq> 0 \<and> fst q = Suc (allocs s) then snd q < n else in_block q s)"
    "cell q s' = (if n \<noteq> 0 \<and> fst q = Suc (allocs s) then None else cell q s)"
    "trace s' = trace s" "leaked s' = leaked s" "vecs s' = vecs s"
    "faults s' = (if n = 0 then faults s else tl (faults s))"
  using assms
  by (auto simp: RawMemory_ctor_def Allocate_def andThen_Inr ret_eq attempt_Inr in_block_def
      cell_def split: if_splits)

lemma Deallocate_proj [simp]:
  "vecs (Deallocate b s) = vecs s" "allocs (Deallocate b s) = allocs s"
  "faults (Deallocate b s) = faults s" "trace (Deallocate b s) = trace s"
  by (simp_all add: Deallocate_def)

lemma RawMemory_dtor_proj [simp]:
  "vecs (RawMemory_dtor m s) = vecs s" "allocs (RawMemory_dtor m s) = allocs s"
  "faults (RawMemory_dtor m s) = faults s" "trace (RawMemory_dtor m s) = trace s"
  by (simp_all add: RawMemory_dtor_def)

lemma RawMemory_ctor_InrD:
  "RawMemory_ctor n s = (Inr m, s') \<Longrightarrow>
     m = \<lparr>buffer' = (if n = 0 then 0 else Suc (allocs s)), capacity' = n\<rparr> \<and> vecs s' = vecs s"
  by (simp add: RawMemory_ctor_Inr)

lemma RawMemory_ctor_InlD:
  "RawMemory_ctor n s = (Inl e, s') \<Longrightarrow> e = BadAlloc \<and> vecs s' = vecs s"
  by (auto simp: RawMemory_ctor_def Allocate_def andThen_Inl ret_eq attempt_def
      split: if_splits list.splits)

lemma commit_vecs:
  "vecs (commit this nd s) = (vecs s)(this := \<lparr>data' = nd, size' = size' (vecs s this)\<rparr>)"
  by (cases nd) (simp add: commit_def RawMemory_Swap_def RawMemory_dtor_def Deallocate_def put_def Let_def)

lemma Reserve_vecs:
  assumes "Reserve T this n s = (r, s')"
  shows "vecs s' = (if r = Inr () \<and> capacity' (data' (vecs s this)) < n
           then (vecs s)(this := \<lparr>data' = \<lparr>buffer' = Suc (allocs s), capacity' = n\<rparr>,
                                  size' = size' (vecs s this)\<rparr>)
           else vecs s)"
proof (cases "n \<le> capacity' (data' (vecs s this))")
  case True
  with assms show ?thesis by (auto simp: Reserve_def)
next
  case False
  let ?v = "vecs s this"
  from assms False have
    "andThen (RawMemory_ctor n) (\<lambda>new_data.
        andThen (unwinding
                   (relocate_n T (GetAddress (data' ?v)) (size' ?v) (GetAddress new_data))
                   (RawMemory_dtor new_data)) (\<lambda>_.
        andThen (destroy_n (GetAddress (data' ?v)) (size' ?v)) (\<lambda>_.
        effect (commit this new_data)))) s = (r, s')"
    by (simp add: Reserve_def Let_def)
  then show ?thesis
    using False
    by (auto simp: andThen_eq effect_eq commit_vecs unwinding_Inl unwinding_Inr
        dest!: RawMemory_ctor_InrD RawMemory_ctor_InlD soD [OF so_relocate_n]
          soD [OF so_destroy_n])
qed

subsection \<open>What each operation does to the vector objects\<close>

lemma grow_vecs:
  "vecs (grow this s) = (vecs s)(this := \<lparr>data' = data' (vecs s this), size' = Suc (size' (vecs s this))\<rparr>)"
  by (simp add: grow_def put_def)

lemma EmplaceBack_vecs:
  assumes "EmplaceBack T this x s = (r, s')"
  shows "vecs s' =
     (case r of
        Inl e \<Rightarrow> vecs s
      | Inr p \<Rightarrow> (vecs s)(this :=
          \<lparr>data' = (if capacity' (data' (vecs s this)) \<le> size' (vecs s this)
                     then \<lparr>buffer' = Suc (allocs s),
                           capacity' = (if size' (vecs s this) = 0 then 1 else size' (vecs s this) * 2)\<rparr>
                     else data' (vecs s this)),
            size' = Suc (size' (vecs s this))\<rparr>))"
  using assms
  by (cases r)
    (auto simp: EmplaceBack_def Let_def andThen_eq effect_eq ret_eq commit_vecs grow_vecs
      unwinding_Inl unwinding_Inr
      dest!: RawMemory_ctor_InrD RawMemory_ctor_InlD soD [OF so_relocate_n]
        soD [OF so_destroy_n] soD [OF so_construct_at]
      split: if_splits)

lemma assert_eq: "assert T c s = (r, s') \<longleftrightarrow>
    s' = s \<and> (if NDEBUG T \<or> c then r = Inr () else r = Inl AssertionFailed)"
  by (auto simp: assert_def)

lemma Emplace_vecs:
  assumes "Emplace T this pos x s = (r, s')"
  shows "vecs s' =
     (case r of
        Inl e \<Rightarrow> vecs s
      | Inr p \<Rightarrow> (vecs s)(this :=
          \<lparr>data' = (if size' (vecs s this) < capacity' (data' (vecs s this))
                     then data' (vecs s this)
                     else \<lparr>buffer' = Suc (allocs s),
                           capacity' = (if size' (vecs s this) = 0 then 1 else size' (vecs s this) * 2)\<rparr>),
            size' = Suc (size' (vecs s this))\<rparr>))"
proof -
  define v where "v = vecs s this"
  define b where "b = GetAddress (data' v)"
  define e where "e = offset b (size' v)"
  define distance where "distance = snd pos - snd b"
  define inplace :: "('a, unit) prog" where "inplace =
     (if pos = e then andThen (construct_at e x) (\<lambda>_. ret ())
      else
        andThen (attempt Thrown) (\<lambda>_.
        andThen (effect (emit Constructed)) (\<lambda>_.
        scoped
          (if size' v = 0 then raise Undefined
           else
             andThen (RawMemory_index T (data' v) (size' v - 1)) (\<lambda>back.
             andThen (move_construct_at T e back) (\<lambda>_.
             andThen (std_move_backward T (offset b distance)
                        (offset b (size' v - 1)) e) (\<lambda>_.
             move_assign_from (offset b distance) x))))
          (emit Destroyed))))"
  define fill :: "RawMemory \<Rightarrow> ('a, unit) prog" where "fill = (\<lambda>new_data.
     andThen (construct_at (offset (GetAddress new_data) distance) x) (\<lambda>_.
       if size' v < distance then raise Undefined
       else
         andThen (relocate_n T b distance (GetAddress new_data)) (\<lambda>_.
         relocate_n T (offset b distance) (size' v - distance)
           (offset (GetAddress new_data) (distance + 1)))))"
  have so1: "always same_objects inplace"
    unfolding inplace_def
    by (auto intro!: always_intros so_intros always_effect)
  have so2: "always same_objects (fill nd)" for nd
    unfolding fill_def
    by (auto intro!: always_intros so_intros)
  have E: "Emplace T this pos x s =
     (if fst pos \<noteq> fst b then (Inl Undefined, s)
      else
        andThen (assert T (snd pos \<ge> snd b \<and> snd pos < snd e)) (\<lambda>_.
        andThen
          (if size' v < capacity' (data' v) then inplace
           else
             andThen (RawMemory_ctor (if size' v = 0 then 1 else size' v * 2)) (\<lambda>new_data.
             andThen (unwinding (fill new_data) (RawMemory_dtor new_data)) (\<lambda>_.
             andThen (destroy_n (GetAddress (data' v)) (size' v)) (\<lambda>_.
             effect (commit this new_data)))))
          (\<lambda>_. andThen (effect (grow this))
                 (\<lambda>_ s'. (Inr (offset (Vector_begin this s') distance), s')))) s)"
    by (simp only: Emplace_def Let_def v_def b_def e_def distance_def inplace_def fill_def)
  from assms [unfolded E] show ?thesis
    unfolding v_def [symmetric]
    by (cases r)
      (auto simp: andThen_eq effect_eq assert_eq commit_vecs grow_vecs
        unwinding_Inl unwinding_Inr v_def
        dest!: RawMemory_ctor_InrD RawMemory_ctor_InlD soD [OF so1] soD [OF so2]
          soD [OF so_destroy_n]
        split: if_splits)
qed

lemma Reserve_capacity:
  assumes "Reserve T this n s = (r, s')"
  shows "Capacity this s \<le> Capacity this s'"
  using Reserve_vecs [OF assms] by (simp add: Capacity_def)

lemma Resize_capacity:
  assumes "Resize T this n s = (r, s')"
  shows "Capacity this s \<le> Capacity this s'"
  using assms
  by (auto simp: Resize_def Let_def andThen_eq effect_eq ret_eq put_def Capacity_def
      dest!: soD [OF so_destroy_n] soD [OF so_uninitialized_value_construct_n]
      dest: Reserve_vecs split: if_splits)

lemma EmplaceBack_capacity:
  assumes "EmplaceBack T this x s = (r, s')"
  shows "Capacity this s \<le> Capacity this s'"
  using EmplaceBack_vecs [OF assms] by (cases r) (auto simp: Capacity_def)

lemma PushBack_capacity:
  assumes "PushBack T this x s = (r, s')"
  shows "Capacity this s \<le> Capacity this s'"
  using assms by (auto simp: PushBack_def andThen_eq ret_eq dest: EmplaceBack_capacity)

lemma PopBack_vecs:
  assumes "PopBack this s = (r, s')"
  shows "vecs s' = (if size' (vecs s this) = 0 then vecs s
                    else (vecs s)(this := \<lparr>data' = data' (vecs s this), size' = size' (vecs s this) - 1\<rparr>))"
  using assms
  by (auto simp: PopBack_def Let_def andThen_eq effect_eq put_def dest!: soD [OF so_destroy_at]
      split: if_splits)

lemma PopBack_capacity:
  assumes "PopBack this s = (r, s')"
  shows "Capacity this s \<le> Capacity this s'"
  using PopBack_vecs [OF assms] by (simp add: Capacity_def)

lemma Emplace_capacity:
  assumes "Emplace T this pos x s = (r, s')"
  shows "Capacity this s \<le> Capacity this s'"
  using Emplace_vecs [OF assms] by (cases r) (auto simp: Capacity_def)

lemma Erase_capacity:
  assumes "Erase T this pos s = (r, s')"
  shows "Capacity this s \<le> Capacity this s'"
  using assms
  by (auto simp: Erase_def Let_def andThen_eq assert_eq Capacity_def
      dest!: soD [OF so_std_move] PopBack_vecs split: if_splits)

lemma Vector_copy_Inr:
  "Vector_copy other s = (Inr v, s') \<Longrightarrow>
     v = \<lparr>data' = \<lparr>buffer' = (if size' other = 0 then 0 else Suc (allocs s)),
                    capacity' = size' other\<rparr>, size' = size' other\<rparr> \<and> vecs s' = vecs s"
  by (auto simp: Vector_copy_def andThen_Inr ret_eq unwinding_Inr
      dest!: RawMemory_ctor_InrD soD [OF so_uninitialized_copy_n])

lemma Vector_copy_Inl:
  "Vector_copy other s = (Inl e, s') \<Longrightarrow> vecs s' = vecs s"
  by (auto simp: Vector_copy_def andThen_Inl ret_eq unwinding_Inl
      dest!: RawMemory_ctor_InrD RawMemory_ctor_InlD soD [OF so_uninitialized_copy_n])

lemma Vector_dtor_vecs [simp]: "vecs (Vector_dtor v s) = vecs s"
proof -
  obtain r s1 where d: "destroy_n (GetAddress (data' v)) (size' v) s = (r, s1)"
    by (cases "destroy_n (GetAddress (data' v)) (size' v) s")
  from soD [OF so_destroy_n d] d show ?thesis by (simp add: Vector_dtor_def)
qed

lemma CopyFromRhsVector_capacity:
  assumes "CopyFromRhsVector this rhs s = (r, s')"
  shows "Capacity this s \<le> Capacity this s'"
  using assms
  by (auto simp: CopyFromRhsVector_def Let_def andThen_eq effect_eq put_def Capacity_def
      dest!: soD [OF so_std_copy] soD [OF so_destroy_n] soD [OF so_uninitialized_copy_n]
      split: if_splits)

lemma copy_assign_capacity:
  assumes "copy_assign this rhs s = (r, s')"
  shows "Capacity this s \<le> Capacity this s'"
  using assms
  by (auto simp: copy_assign_def andThen_eq effect_eq put_def Capacity_def Swap_values_def
      RawMemory_Swap_def
      dest!: Vector_copy_Inr Vector_copy_Inl dest: CopyFromRhsVector_capacity
      split: if_splits)

subsection \<open>The element operations of a relocation\<close>




lemma commit_trace [simp]: "trace (commit this nd s) = trace s"
  by (simp add: commit_def Let_def RawMemory_Swap_def put_def split: prod.splits)

lemma grow_trace [simp]: "trace (grow this s) = trace s"
  by (simp add: grow_def put_def)






subsection \<open>A reallocating append that throws\<close>

named_theorems ut_intros

lemma untouched_refl [ut_intros]: "reflp (untouched b)"
  by (simp add: reflp_def untouched_def)

lemma untouched_trans [ut_intros]: "transp (untouched b)"
  by (simp add: transp_def untouched_def)

lemma heap_store_other: "fst p \<noteq> b \<Longrightarrow> heap (store p c s) b = heap s b"
  by (simp add: store_def)

lemma heap_place_other: "fst p \<noteq> b \<Longrightarrow> heap (place p v s) b = heap s b"
  by (simp add: place_def heap_store_other split: option.splits)


lemma ut_copy_construct_at [ut_intros]:
  "fst p \<noteq> b \<Longrightarrow> always (untouched b) (copy_construct_at p q)"
  by (simp add: always_def untouched_def copy_construct_at_def andThen_def attempt_def
      heap_place_other split: list.splits option.splits)

lemma ut_destroy_at [ut_intros]: "fst p \<noteq> b \<Longrightarrow> always (untouched b) (destroy_at p)"
  by (simp add: always_def untouched_def destroy_at_def heap_store_other split: option.splits)


lemma ut_Deallocate: "a \<noteq> b \<Longrightarrow> untouched b s (Deallocate a s)"
  by (simp add: untouched_def Deallocate_def)










subsection \<open>A successful append\<close>

text \<open>What a successful relocation leaves in the blocks other than the source.\<close>

lemma uninit_loop_frame:
  assumes "uninit_loop ctor dst k n s = (Inr r, s')"
    and "\<And>j t t'. ctor j t = (Inr (), t') \<Longrightarrow>
           vecs t' = vecs t \<and> allocs t' = allocs t \<and> (\<forall>q. in_block q t' = in_block q t)"
  shows "vecs s' = vecs s \<and> allocs s' = allocs s \<and> (\<forall>q. in_block q s' = in_block q s)"
  by (rule uninit_loop_Inr_inv [OF assms(1),
        where I = "\<lambda>j t. vecs t = vecs s \<and> allocs t = allocs s \<and> (\<forall>q. in_block q t = in_block q s)"])
    (use assms(2) in auto)

lemma relocate_n_frame:
  assumes "relocate_n T src n dst s = (Inr r, s')"
  shows "vecs s' = vecs s" "allocs s' = allocs s" "in_block q s' = in_block q s"
proof -
  have "vecs s' = vecs s \<and> allocs s' = allocs s \<and> (\<forall>q. in_block q s' = in_block q s)"
  proof (cases "nothrow_move_constructible T \<or> \<not> copy_constructible T")
    case True
    with assms have "uninit_loop (\<lambda>k. move_construct_at T (offset dst k) (offset src k)) dst 0 n s = (Inr r, s')"
      by (simp add: relocate_n_def uninitialized_move_n_def)
    then show ?thesis
      by (rule uninit_loop_frame) (simp add: move_construct_at_Inr)
  next
    case False
    with assms have "uninit_loop (\<lambda>k. copy_construct_at (offset dst k) (offset src k)) dst 0 n s = (Inr r, s')"
      by (simp add: relocate_n_def uninitialized_copy_n_def)
    then show ?thesis
      by (rule uninit_loop_frame) (simp add: copy_construct_at_Inr)
  qed
  then show "vecs s' = vecs s" "allocs s' = allocs s" "in_block q s' = in_block q s" by blast+
qed

lemma uninit_loop_cells:
  assumes "uninit_loop ctor dst 0 n s = (Inr r, s')" and "fst src \<noteq> fst dst"
    and step: "\<And>j t t' q. ctor j t = (Inr (), t') \<Longrightarrow>
           cell q t' = (if q = offset dst j then cell (offset src j) t
                        else if q = offset src j then g (cell q t) else cell q t)"
  shows "fst q \<noteq> fst src \<Longrightarrow>
           cell q s' = (if fst q = fst dst \<and> snd dst \<le> snd q \<and> snd q < snd dst + n
                        then cell (fst src, snd src + (snd q - snd dst)) s else cell q s)"
proof -
  let ?I = "\<lambda>j t. (\<forall>q. fst q \<noteq> fst src \<longrightarrow>
                cell q t = (if fst q = fst dst \<and> snd dst \<le> snd q \<and> snd q < snd dst + j
                            then cell (fst src, snd src + (snd q - snd dst)) s else cell q s)) \<and>
              (\<forall>i. snd src + j \<le> i \<longrightarrow> cell (fst src, i) t = cell (fst src, i) s)"
  have "?I (0 + n) s'"
  proof (rule uninit_loop_Inr_inv [OF assms(1), where I = ?I])
    show "?I 0 s" by auto
  next
    fix j t t'
    assume I: "?I j t" and c: "ctor j t = (Inr (), t')"
    have src: "cell (offset src j) t = cell (fst src, snd src + j) s"
      using I by (simp add: offset_def)
    show "?I (Suc j) t'"
    proof (intro conjI allI impI)
      fix q :: ptr
      assume q: "fst q \<noteq> fst src"
      show "cell q t' = (if fst q = fst dst \<and> snd dst \<le> snd q \<and> snd q < snd dst + Suc j
                         then cell (fst src, snd src + (snd q - snd dst)) s else cell q s)"
      proof (cases "q = offset dst j")
        case True
        then show ?thesis using step [OF c, of q] src by (simp add: offset_def)
      next
        case False
        then have "\<not> (fst q = fst dst \<and> snd q = snd dst + j)"
          by (cases q) (auto simp: offset_def)
        moreover have "cell q t' = cell q t"
          using step [OF c, of q] False q by (auto simp: offset_def)
        ultimately show ?thesis using I q by (auto simp: less_Suc_eq)
      qed
    next
      fix i
      assume i: "snd src + Suc j \<le> i"
      have "(fst src, i) \<noteq> offset dst j" "(fst src, i) \<noteq> offset src j"
        using assms(2) i by (auto simp: offset_def)
      then have "cell (fst src, i) t' = cell (fst src, i) t"
        using step [OF c, of "(fst src, i)"] by simp
      with I i show "cell (fst src, i) t' = cell (fst src, i) s" by simp
    qed
  qed
  then have "\<forall>q. fst q \<noteq> fst src \<longrightarrow>
                cell q s' = (if fst q = fst dst \<and> snd dst \<le> snd q \<and> snd q < snd dst + n
                            then cell (fst src, snd src + (snd q - snd dst)) s else cell q s)"
    by (simp del: split_paired_All)
  then show "fst q \<noteq> fst src \<Longrightarrow>
           cell q s' = (if fst q = fst dst \<and> snd dst \<le> snd q \<and> snd q < snd dst + n
                        then cell (fst src, snd src + (snd q - snd dst)) s else cell q s)"
    by blast
qed

lemma relocate_n_cells:
  assumes "relocate_n T src n dst s = (Inr r, s')" and "fst src \<noteq> fst dst" and "fst q \<noteq> fst src"
  shows "cell q s' = (if fst q = fst dst \<and> snd dst \<le> snd q \<and> snd q < snd dst + n
                      then cell (fst src, snd src + (snd q - snd dst)) s else cell q s)"
proof (cases "nothrow_move_constructible T \<or> \<not> copy_constructible T")
  case True
  with assms(1) have l: "uninit_loop (\<lambda>k. move_construct_at T (offset dst k) (offset src k)) dst 0 n s = (Inr r, s')"
    by (simp add: relocate_n_def uninitialized_move_n_def)
  show ?thesis
  proof (rule uninit_loop_cells [OF l assms(2) _ assms(3), where g = "map_option (moved_from T)"])
    fix j t t' q
    assume "move_construct_at T (offset dst j) (offset src j) t = (Inr (), t')"
    from move_construct_at_Inr(3) [OF this, of q] assms(2)
    show "cell q t' = (if q = offset dst j then cell (offset src j) t
                        else if q = offset src j then map_option (moved_from T) (cell q t) else cell q t)"
      by (auto simp: offset_def)
  qed
next
  case False
  with assms(1) have l: "uninit_loop (\<lambda>k. copy_construct_at (offset dst k) (offset src k)) dst 0 n s = (Inr r, s')"
    by (simp add: relocate_n_def uninitialized_copy_n_def)
  show ?thesis
  proof (rule uninit_loop_cells [OF l assms(2) _ assms(3), where g = "\<lambda>c. c"])
    fix j t t' q
    assume "copy_construct_at (offset dst j) (offset src j) t = (Inr (), t')"
    from copy_construct_at_Inr(3) [OF this, of q]
    show "cell q t' = (if q = offset dst j then cell (offset src j) t
                        else if q = offset src j then cell q t else cell q t)"
      by simp
  qed
qed

lemma destroy_n_frame:
  assumes "destroy_n p n s = (Inr r, s')"
  shows "vecs s' = vecs s" "allocs s' = allocs s" "in_block q s' = in_block q s"
    "fst q \<noteq> fst p \<Longrightarrow> cell q s' = cell q s"
proof -
  let ?I = "\<lambda>j t. vecs t = vecs s \<and> allocs t = allocs s \<and> (\<forall>q. in_block q t = in_block q s) \<and>
              (\<forall>q. fst q \<noteq> fst p \<longrightarrow> cell q t = cell q s)"
  have "?I n s'"
  proof (rule destroy_n_Inr_inv [OF assms, where I = ?I])
    show "?I 0 s" by simp
  next
    fix j t t'
    assume I: "?I j t" and d: "destroy_at (offset p j) t = (Inr (), t')"
    have "cell q t' = cell q t" if "fst q \<noteq> fst p" for q
      using destroy_at_Inr(2) [OF d, of q] that by (auto simp: offset_def)
    with I destroy_at_Inr(3-5) [OF d] show "?I (Suc j) t'" by simp
  qed
  then show "vecs s' = vecs s" "allocs s' = allocs s" "in_block q s' = in_block q s"
    "fst q \<noteq> fst p \<Longrightarrow> cell q s' = cell q s"
    by blast+
qed

lemma in_block_Deallocate: "in_block q (Deallocate b s) = (fst q \<noteq> b \<and> in_block q s)"
  by (auto simp: Deallocate_def in_block_def)

lemma cell_Deallocate: "cell q (Deallocate b s) = (if fst q = b then None else cell q s)"
  by (auto simp: cell_def in_block_Deallocate) (auto simp: Deallocate_def in_block_def)

lemma in_block_put [simp]: "in_block q (put this v s) = in_block q s"
  by (simp add: put_def)

lemma cell_put [simp]: "cell q (put this v s) = cell q s"
  by (simp add: put_def)

lemma put_proj [simp]:
  "allocs (put this v s) = allocs s" "vecs (put this v s) = (vecs s)(this := v)"
  "trace (put this v s) = trace s" "faults (put this v s) = faults s"
  "leaked (put this v s) = leaked s"
  by (simp_all add: put_def)

lemma commit_obs:
  "in_block q (commit this nd s) = (fst q \<noteq> buffer' (data' (vecs s this)) \<and> in_block q s)"
  "cell q (commit this nd s) = (if fst q = buffer' (data' (vecs s this)) then None else cell q s)"
  "allocs (commit this nd s) = allocs s"
  by (simp_all add: commit_def Let_def RawMemory_Swap_def RawMemory_dtor_def in_block_Deallocate
      cell_Deallocate)

lemma grow_obs [simp]:
  "in_block q (grow this s) = in_block q s" "cell q (grow this s) = cell q s"
  "allocs (grow this s) = allocs s"
  by (simp_all add: grow_def)

lemma EmplaceBack_holds:
  assumes h: "holds this xs s" and e: "EmplaceBack T this x s = (Inr p, s')"
  shows "holds this (xs @ [x]) s'" and "p = (buffer' (data' (vecs s' this)), length xs)"
proof -
  let ?v = "vecs s this"
  let ?b = "buffer' (data' ?v)"
  let ?c = "capacity' (data' ?v)"
  from h have sz: "size' ?v = length xs" and le: "length xs \<le> ?c" and al: "?b \<le> allocs s"
    and ib: "\<And>i. in_block (?b, i) s = (i < ?c)"
    and ce: "\<And>i. cell (?b, i) s = (if i < length xs then Some (xs ! i) else None)"
    by (simp_all add: holds_def)
  have "holds this (xs @ [x]) s' \<and> p = (buffer' (data' (vecs s' this)), length xs)"
  proof (cases "?c \<le> size' ?v")
    case False
    with e obtain s1 where c: "construct_at (offset (GetAddress (data' ?v)) (size' ?v)) x s = (Inr p, s1)"
      and s': "s' = grow this s1"
      by (auto simp: EmplaceBack_def Let_def andThen_Inr effect_eq ret_eq)
    note C = construct_at_Inr [OF c]
    have vs': "vecs s' this = \<lparr>data' = data' ?v, size' = Suc (length xs)\<rparr>"
      using C(5) sz by (simp add: s' grow_vecs)
    have ce': "cell (?b, i) s' = (if i < length (xs @ [x]) then Some ((xs @ [x]) ! i) else None)" for i
      using C(3) [of "(?b, i)"] ce [of i] sz
      by (auto simp: s' offset_def GetAddress_def nth_append)
    have "holds this (xs @ [x]) s'"
      using vs' ce' ib C(4) C(6) al False sz by (simp add: holds_def s')
    moreover have "p = (buffer' (data' (vecs s' this)), length xs)"
      using C(1) sz vs' by (simp add: offset_def GetAddress_def)
    ultimately show ?thesis by simp
  next
    case True
    let ?n = "if size' ?v = 0 then 1 else size' ?v * 2"
    let ?nb = "Suc (allocs s)"
    let ?nd = "\<lparr>buffer' = ?nb, capacity' = ?n\<rparr>"
    from e True obtain nd ptr s1 s2 s3 s4 where
      a: "RawMemory_ctor ?n s = (Inr nd, s1)"
      and c: "construct_at (offset (GetAddress nd) (size' ?v)) x s1 = (Inr ptr, s2)"
      and r: "relocate_n T (GetAddress (data' ?v)) (size' ?v) (GetAddress nd) s2 = (Inr (), s3)"
      and d: "destroy_n (GetAddress (data' ?v)) (size' ?v) s3 = (Inr (), s4)"
      and s': "s' = grow this (commit this nd s4)" and p: "p = ptr"
      by (auto simp: EmplaceBack_def Let_def andThen_Inr effect_eq ret_eq unwinding_Inr)
    have nd: "nd = ?nd" using RawMemory_ctor_Inr(1) [OF a] by (simp split: if_splits)
    have n0: "?n \<noteq> 0" by simp
    note A = RawMemory_ctor_Inr [OF a]
    note C = construct_at_Inr [OF c]
    note R = relocate_n_frame [OF r]
    note D = destroy_n_frame [OF d]
    have ne: "?nb \<noteq> ?b" using al by simp
    have v4: "vecs s4 = vecs s" using A(7) C(5) R(1) D(1) by simp
    have vs': "vecs s' this = \<lparr>data' = ?nd, size' = Suc (length xs)\<rparr>"
      using v4 sz by (simp add: s' grow_vecs commit_vecs nd)
    have al': "allocs s' = ?nb"
      using A(2) C(6) R(2) D(2) n0 by (simp add: s' commit_obs)
    have ib': "in_block (?nb, i) s' = (i < ?n)" for i
      using A(3) [of "(?nb, i)"] C(4) [of "(?nb, i)"] R(3) [of "(?nb, i)"] D(3) [of "(?nb, i)"] ne v4
      by (simp add: s' commit_obs)
    have c2: "cell (?nb, i) s2 = (if i = length xs then Some x else None)" for i
      using A(4) [of "(?nb, i)"] C(3) [of "(?nb, i)"] C(1) nd sz
      by (auto simp: offset_def GetAddress_def)
    have c2b: "cell (?b, i) s2 = cell (?b, i) s" for i
      using A(4) [of "(?b, i)"] C(3) [of "(?b, i)"] C(1) nd ne
      by (auto simp: offset_def GetAddress_def)
    have c3: "cell (?nb, i) s3 = (if i < length xs then Some (xs ! i) else if i = length xs then Some x else None)" for i
      using relocate_n_cells [OF r, of "(?nb, i)"] ne nd sz c2 c2b ce
      by (auto simp: GetAddress_def)
    have c4: "cell (?nb, i) s4 = cell (?nb, i) s3" for i
      using D(4) [of "(?nb, i)"] ne by simp
    have ce': "cell (?nb, i) s' = (if i < length (xs @ [x]) then Some ((xs @ [x]) ! i) else None)" for i
      using c3 [of i] c4 [of i] ne v4 by (auto simp: s' commit_obs nth_append)
    have "length xs + 1 \<le> ?n" using sz by (cases xs) simp_all
    then have "holds this (xs @ [x]) s'"
      using vs' al' ib' ce' by (simp add: holds_def)
    moreover have "p = (buffer' (data' (vecs s' this)), length xs)"
      using p C(1) nd sz vs' by (simp add: offset_def GetAddress_def)
    ultimately show ?thesis by simp
  qed
  then show "holds this (xs @ [x]) s'" and "p = (buffer' (data' (vecs s' this)), length xs)"
    by simp_all
qed

lemma holds_Vector_ctor: "holds this [] (Vector_ctor this s)"
  by (simp add: holds_def Vector_ctor_def Vector_default_def RawMemory_default_def in_block_def
      cell_def)

lemma read_at_holds:
  assumes "holds this xs s" "i < length xs"
  shows "read_at T this i s = (Inr (xs ! i), s)"
  using assms
  by (simp add: holds_def read_at_def Vector_index_def RawMemory_index_def andThen_def assert_def
      ret_def deref_def)

lemma PushBack_holds:
  assumes "holds this xs s" "PushBack T this x s = (Inr u, s')"
  shows "holds this (xs @ [x]) s'"
  using assms by (auto simp: PushBack_def andThen_Inr ret_eq dest: EmplaceBack_holds(1))

lemma push_all_holds:
  assumes "holds this xs s" "push_all T this ys s = (Inr u, s')"
  shows "holds this (xs @ ys) s'"
  using assms
proof (induction ys arbitrary: xs s)
  case Nil
  then show ?case by simp
next
  case (Cons y ys)
  from Cons.prems(2) obtain s1 where p: "PushBack T this y s = (Inr (), s1)"
    and r: "push_all T this ys s1 = (Inr u, s')"
    by (auto split: prod.splits sum.splits)
  from Cons.IH [OF PushBack_holds [OF Cons.prems(1) p] r] show ?case by simp
qed

subsection \<open>A successful erase\<close>

lemma std_move_left_cells:
  assumes "assign_loop (move_assign_at T) (b, Suc i) (b, i) n s = (Inr r, s')"
  shows "vecs s' = vecs s" "allocs s' = allocs s" "in_block q s' = in_block q s"
    "cell q s' =
       (if fst q = b \<and> i \<le> snd q \<and> snd q < i + n then cell (b, Suc (snd q)) s
        else if fst q = b \<and> snd q = i + n \<and> 0 < n then map_option (moved_from T) (cell q s)
        else cell q s)"
proof -
  let ?I = "\<lambda>j t. vecs t = vecs s \<and> allocs t = allocs s \<and> (\<forall>q. in_block q t = in_block q s) \<and>
     (\<forall>q. cell q t =
       (if fst q = b \<and> i \<le> snd q \<and> snd q < i + j then cell (b, Suc (snd q)) s
        else if fst q = b \<and> snd q = i + j \<and> 0 < j then map_option (moved_from T) (cell q s)
        else cell q s))"
  have "?I n s'"
  proof (rule assign_loop_Inr_inv [OF assms, where I = ?I])
    show "?I 0 s" by auto
  next
    fix j t t'
    assume I: "?I j t"
      and m: "move_assign_at T (offset (b, i) j) (offset (b, Suc i) j) t = (Inr (), t')"
    note M = move_assign_at_Inr [OF m]
    have src: "cell (b, Suc (i + j)) t = cell (b, Suc (i + j)) s"
      using I by (auto simp del: split_paired_All)
    have "cell q t' =
       (if fst q = b \<and> i \<le> snd q \<and> snd q < i + Suc j then cell (b, Suc (snd q)) s
        else if fst q = b \<and> snd q = i + Suc j \<and> 0 < Suc j then map_option (moved_from T) (cell q s)
        else cell q s)" for q
    proof -
      have Iq: "cell q t =
         (if fst q = b \<and> i \<le> snd q \<and> snd q < i + j then cell (b, Suc (snd q)) s
          else if fst q = b \<and> snd q = i + j \<and> 0 < j then map_option (moved_from T) (cell q s)
          else cell q s)"
        using I by (simp del: split_paired_All)
      show ?thesis
        using M(3) [of q] src Iq
        by (cases q) (auto simp: offset_def)
    qed
    with I M(4-6) show "?I (Suc j) t'" by (simp del: split_paired_All)
  qed
  then show "vecs s' = vecs s" "allocs s' = allocs s" "in_block q s' = in_block q s"
    "cell q s' =
       (if fst q = b \<and> i \<le> snd q \<and> snd q < i + n then cell (b, Suc (snd q)) s
        else if fst q = b \<and> snd q = i + n \<and> 0 < n then map_option (moved_from T) (cell q s)
        else cell q s)"
    by (simp_all del: split_paired_All)
qed

lemma Erase_holds:
  assumes h: "holds this xs s" and i: "i < length xs"
    and e: "Erase T this (offset (Vector_begin this s) i) s = (Inr r, s')"
  shows "holds this (take i xs @ drop (Suc i) xs) s'"
    and "r = offset (Vector_begin this s') i"
proof -
  let ?v = "vecs s this"
  let ?b = "buffer' (data' ?v)"
  let ?c = "capacity' (data' ?v)"
  let ?n = "length xs"
  from h have sz: "size' ?v = ?n" and le: "?n \<le> ?c" and al: "?b \<le> allocs s"
    and ib: "\<And>i. in_block (?b, i) s = (i < ?c)"
    and ce: "\<And>i. cell (?b, i) s = (if i < ?n then Some (xs ! i) else None)"
    by (simp_all add: holds_def)
  from e i sz obtain s1 s2 where
    m: "assign_loop (move_assign_at T) (?b, Suc i) (?b, i) (?n - Suc i) s = (Inr (), s1)"
    and p: "PopBack this s1 = (Inr (), s2)" and s': "s' = s2"
    and r: "r = offset (Vector_begin this s2) i"
    by (auto simp: Erase_def Let_def Vector_begin_def andThen_Inr assert_Inr std_move_def
        offset_def GetAddress_def split: if_splits)
  note M = std_move_left_cells [OF m]
  have v1: "vecs s1 this = ?v" using M(1) by simp
  from p v1 sz i obtain s1' where
    d: "destroy_at (?b, ?n - 1) (put this \<lparr>data' = data' ?v, size' = ?n - 1\<rparr> s1) = (Inr (), s')"
    by (auto simp: PopBack_def Let_def andThen_Inr effect_eq s' offset_def GetAddress_def
        split: if_splits)
  note D = destroy_at_Inr [OF d]
  have vs': "vecs s' this = \<lparr>data' = data' ?v, size' = ?n - 1\<rparr>"
    using D(4) by simp
  have ce': "cell (?b, k) s' =
      (if k < length (take i xs @ drop (Suc i) xs) then Some ((take i xs @ drop (Suc i) xs) ! k)
       else None)" for k
    using D(2) [of "(?b, k)"] M(4) [of "(?b, k)"] ce i
    by (auto simp: nth_append min_def)
  have ib': "in_block (?b, k) s' = (k < ?c)" for k
    using D(3) [of "(?b, k)"] M(3) [of "(?b, k)"] ib by simp
  have al': "?b \<le> allocs s'" using D(5) M(2) al by simp
  have len: "length (take i xs @ drop (Suc i) xs) = ?n - 1" using i by simp
  show "holds this (take i xs @ drop (Suc i) xs) s'"
    unfolding holds_def using vs' ce' ib' al' len le
    by (simp del: length_append length_take length_drop)
  show "r = offset (Vector_begin this s') i" using r s' by simp
qed

subsection \<open>Progress\<close>

text \<open>Progress: with nothing scheduled to throw, a step whose pointers are good succeeds.\<close>

lemma attempt_quiet: "faults s = [] \<Longrightarrow> attempt e s = (Inr (), s)"
  by (simp add: attempt_def)

lemma construct_at_quiet:
  "faults s = [] \<Longrightarrow> in_block p s \<Longrightarrow> \<exists>s'. construct_at p x s = (Inr p, s') \<and> faults s' = []"
  by (simp add: construct_at_def andThen_def attempt_quiet)

lemma copy_construct_at_quiet:
  "faults s = [] \<Longrightarrow> in_block p s \<Longrightarrow> cell q s \<noteq> None \<Longrightarrow>
     \<exists>s'. copy_construct_at p q s = (Inr (), s') \<and> faults s' = []"
  by (auto simp: copy_construct_at_def andThen_def attempt_quiet)

lemma move_construct_at_quiet:
  "faults s = [] \<Longrightarrow> in_block p s \<Longrightarrow> cell q s \<noteq> None \<Longrightarrow>
     \<exists>s'. move_construct_at T p q s = (Inr (), s') \<and> faults s' = []"
  by (auto simp: move_construct_at_def andThen_def attempt_quiet ret_def)

lemma destroy_at_quiet:
  "cell p s \<noteq> None \<Longrightarrow> \<exists>s'. destroy_at p s = (Inr (), s') \<and> faults s' = faults s"
  by (auto simp: destroy_at_def)

lemma move_assign_at_quiet:
  "faults s = [] \<Longrightarrow> cell p s \<noteq> None \<Longrightarrow> cell q s \<noteq> None \<Longrightarrow>
     \<exists>s'. move_assign_at T p q s = (Inr (), s') \<and> faults s' = []"
  by (auto simp: move_assign_at_def andThen_def attempt_quiet)

lemma RawMemory_ctor_quiet:
  "faults s = [] \<Longrightarrow> \<exists>m s'. RawMemory_ctor n s = (Inr m, s') \<and> faults s' = []"
  by (simp add: RawMemory_ctor_def Allocate_def andThen_def attempt_quiet ret_def)

lemma uninit_loop_progress:
  assumes "I k s"
    and "\<And>j t. \<lbrakk>k \<le> j; j < k + n; I j t\<rbrakk> \<Longrightarrow> \<exists>t'. ctor j t = (Inr (), t') \<and> I (Suc j) t'"
  shows "\<exists>s'. uninit_loop ctor dst k n s = (Inr (), s') \<and> I (k + n) s'"
  using assms
proof (induction n arbitrary: k s)
  case 0
  then show ?case by simp
next
  case (Suc n)
  from Suc.prems(2) [of k s] Suc.prems(1) obtain s1 where
    c: "ctor k s = (Inr (), s1)" and i: "I (Suc k) s1" by auto
  have "\<exists>s'. uninit_loop ctor dst (Suc k) n s1 = (Inr (), s') \<and> I (Suc k + n) s'"
    by (rule Suc.IH [OF i]) (use Suc.prems(2) in auto)
  with c show ?case by simp
qed

lemma destroy_n_progress:
  assumes "I 0 s"
    and "\<And>j t. \<lbrakk>j < n; I j t\<rbrakk> \<Longrightarrow> \<exists>t'. destroy_at (offset p j) t = (Inr (), t') \<and> I (Suc j) t'"
  shows "\<exists>s'. destroy_n p n s = (Inr (), s') \<and> I n s'"
  using assms
proof (induction n arbitrary: p s I)
  case 0
  then show ?case by simp
next
  case (Suc n)
  from Suc.prems(2) [of 0 s] Suc.prems(1) obtain s1 where
    c: "destroy_at p s = (Inr (), s1)" and i: "I (Suc 0) s1" by auto
  have "\<exists>s'. destroy_n (offset p 1) n s1 = (Inr (), s') \<and> I (Suc n) s'"
  proof (rule Suc.IH [where I = "\<lambda>j. I (Suc j)"])
    show "I (Suc 0) s1" by (rule i)
  next
    fix j t
    assume "j < n" "I (Suc j) t"
    then show "\<exists>t'. destroy_at (offset (offset p 1) j) t = (Inr (), t') \<and> I (Suc (Suc j)) t'"
      using Suc.prems(2) [of "Suc j" t] by simp
  qed
  with c show ?case by simp
qed

lemma assign_loop_progress:
  assumes "I 0 s"
    and "\<And>j t. \<lbrakk>j < n; I j t\<rbrakk> \<Longrightarrow>
           \<exists>t'. assign (offset d j) (offset first j) t = (Inr (), t') \<and> I (Suc j) t'"
  shows "\<exists>s'. assign_loop assign first d n s = (Inr (), s') \<and> I n s'"
  using assms
proof (induction n arbitrary: first d s I)
  case 0
  then show ?case by simp
next
  case (Suc n)
  from Suc.prems(2) [of 0 s] Suc.prems(1) obtain s1 where
    c: "assign d first s = (Inr (), s1)" and i: "I (Suc 0) s1" by auto
  have "\<exists>s'. assign_loop assign (offset first 1) (offset d 1) n s1 = (Inr (), s') \<and> I (Suc n) s'"
  proof (rule Suc.IH [where I = "\<lambda>j. I (Suc j)"])
    show "I (Suc 0) s1" by (rule i)
  next
    fix j t
    assume "j < n" "I (Suc j) t"
    then show "\<exists>t'. assign (offset (offset d 1) j) (offset (offset first 1) j) t = (Inr (), t') \<and>
                 I (Suc (Suc j)) t'"
      using Suc.prems(2) [of "Suc j" t] by simp
  qed
  with c show ?case by simp
qed

text \<open>Relocating \<open>n\<close> live objects into a block with room for them.\<close>

lemma relocate_n_quiet:
  assumes q: "faults s = []" and ne: "fst src \<noteq> fst dst"
    and live: "\<And>i. i < n \<Longrightarrow> cell (offset src i) s \<noteq> None"
    and room: "\<And>i. i < n \<Longrightarrow> in_block (offset dst i) s"
  shows "\<exists>s'. relocate_n T src n dst s = (Inr (), s') \<and> faults s' = [] \<and>
           (\<forall>i<n. cell (offset src i) s' \<noteq> None)"
proof -
  let ?I = "\<lambda>j t. faults t = [] \<and> (\<forall>q. in_block q t = in_block q s) \<and>
              (\<forall>i<n. cell (offset src i) t \<noteq> None)"
  have step: "\<exists>t'. ctor j t = (Inr (), t') \<and> ?I (Suc j) t'"
    if j: "j < 0 + n" and I: "?I j t"
      and c: "ctor j = copy_construct_at (offset dst j) (offset src j) \<or>
              ctor j = move_construct_at T (offset dst j) (offset src j)"
    for j t and ctor :: "nat \<Rightarrow> (_, unit) prog"
  proof -
    have ib: "in_block (offset dst j) t" using I room j by (simp del: split_paired_All)
    have lv: "cell (offset src j) t \<noteq> None" using I j by simp
    from c show ?thesis
    proof
      assume cc: "ctor j = copy_construct_at (offset dst j) (offset src j)"
      from I have "faults t = []" by simp
      from copy_construct_at_quiet [OF this ib lv] obtain t' where
        t': "copy_construct_at (offset dst j) (offset src j) t = (Inr (), t')" "faults t' = []"
        by blast
      note C = copy_construct_at_Inr [OF t'(1)]
      have "cell (offset src i) t' \<noteq> None" if "i < n" for i
        using C(3) [of "offset src i"] I that ne by (auto simp: offset_def)
      with t' C(4) I cc show ?thesis by (auto simp del: split_paired_All)
    next
      assume cc: "ctor j = move_construct_at T (offset dst j) (offset src j)"
      from I have "faults t = []" by simp
      from move_construct_at_quiet [OF this ib lv, of T] obtain t' where
        t': "move_construct_at T (offset dst j) (offset src j) t = (Inr (), t')" "faults t' = []"
        by blast
      note C = move_construct_at_Inr [OF t'(1)]
      have "cell (offset src i) t' \<noteq> None" if "i < n" for i
        using C(3) [of "offset src i"] I that ne lv by (auto simp: offset_def)
      with t' C(4) I cc show ?thesis by (auto simp del: split_paired_All)
    qed
  qed
  have I0: "?I 0 s" using q live by simp
  show ?thesis
  proof (cases "nothrow_move_constructible T \<or> \<not> copy_constructible T")
    case True
    have "\<exists>s'. uninit_loop (\<lambda>k. move_construct_at T (offset dst k) (offset src k)) dst 0 n s = (Inr (), s') \<and> ?I (0 + n) s'"
      by (rule uninit_loop_progress [where I = ?I, OF I0]) (rule step, simp_all)
    with True show ?thesis by (auto simp: relocate_n_def uninitialized_move_n_def)
  next
    case False
    have "\<exists>s'. uninit_loop (\<lambda>k. copy_construct_at (offset dst k) (offset src k)) dst 0 n s = (Inr (), s') \<and> ?I (0 + n) s'"
      by (rule uninit_loop_progress [where I = ?I, OF I0]) (rule step, simp_all)
    with False show ?thesis by (auto simp: relocate_n_def uninitialized_copy_n_def)
  qed
qed

lemma destroy_n_quiet:
  assumes "\<And>i. i < n \<Longrightarrow> cell (offset p i) s \<noteq> None"
  shows "\<exists>s'. destroy_n p n s = (Inr (), s') \<and> faults s' = faults s"
proof -
  let ?I = "\<lambda>j t. faults t = faults s \<and> (\<forall>i. j \<le> i \<and> i < n \<longrightarrow> cell (offset p i) t \<noteq> None)"
  have "\<exists>s'. destroy_n p n s = (Inr (), s') \<and> ?I n s'"
  proof (rule destroy_n_progress [where I = ?I])
    show "?I 0 s" using assms by simp
  next
    fix j t
    assume j: "j < n" and I: "?I j t"
    then have "cell (offset p j) t \<noteq> None" by simp
    from destroy_at_quiet [OF this] obtain t' where
      t': "destroy_at (offset p j) t = (Inr (), t')" "faults t' = faults t" by auto
    note D = destroy_at_Inr [OF t'(1)]
    have "cell (offset p i) t' \<noteq> None" if "Suc j \<le> i" "i < n" for i
      using D(2) [of "offset p i"] I that by (auto simp: offset_def)
    with t' I show "\<exists>t'. destroy_at (offset p j) t = (Inr (), t') \<and> ?I (Suc j) t'" by auto
  qed
  then show ?thesis by auto
qed

lemma commit_faults [simp]: "faults (commit this nd s) = faults s"
  by (simp add: commit_def Let_def RawMemory_Swap_def put_def split: prod.splits)

lemma grow_faults [simp]: "faults (grow this s) = faults s"
  by (simp add: grow_def put_def)

lemma EmplaceBack_quiet:
  assumes h: "holds this xs s" and q: "faults s = []"
  shows "\<exists>p s'. EmplaceBack T this x s = (Inr p, s') \<and> faults s' = []"
proof -
  let ?v = "vecs s this"
  let ?b = "buffer' (data' ?v)"
  let ?c = "capacity' (data' ?v)"
  from h have sz: "size' ?v = length xs" and le: "length xs \<le> ?c" and al: "?b \<le> allocs s"
    and ib: "\<And>i. in_block (?b, i) s = (i < ?c)"
    and ce: "\<And>i. cell (?b, i) s = (if i < length xs then Some (xs ! i) else None)"
    by (simp_all add: holds_def)
  show ?thesis
  proof (cases "?c \<le> size' ?v")
    case False
    then have "in_block (offset (GetAddress (data' ?v)) (size' ?v)) s"
      using ib [of "size' ?v"] by (simp add: offset_def GetAddress_def)
    from construct_at_quiet [OF q this, of x] False show ?thesis
      by (auto simp: EmplaceBack_def Let_def andThen_def effect_def ret_def)
  next
    case True
    let ?n = "if size' ?v = 0 then 1 else size' ?v * 2"
    let ?nb = "Suc (allocs s)"
    from RawMemory_ctor_quiet [OF q, of ?n] obtain nd s1 where
      a: "RawMemory_ctor ?n s = (Inr nd, s1)" and q1: "faults s1 = []" by blast
    note A = RawMemory_ctor_Inr [OF a]
    have nd: "nd = \<lparr>buffer' = ?nb, capacity' = ?n\<rparr>" using A(1) by (simp split: if_splits)
    have ne: "?nb \<noteq> ?b" using al by simp
    have "in_block (offset (GetAddress nd) (size' ?v)) s1"
      using A(3) [of "offset (GetAddress nd) (size' ?v)"] nd by (simp add: offset_def GetAddress_def)
    from construct_at_quiet [OF q1 this, of x] obtain s2 where
      c: "construct_at (offset (GetAddress nd) (size' ?v)) x s1 = (Inr (offset (GetAddress nd) (size' ?v)), s2)"
      and q2: "faults s2 = []" by blast
    note C = construct_at_Inr [OF c]
    have live2: "cell (offset (GetAddress (data' ?v)) i) s2 \<noteq> None" if "i < size' ?v" for i
      using C(3) [of "(?b, i)"] A(4) [of "(?b, i)"] ce [of i] that sz nd ne
      by (auto simp: offset_def GetAddress_def)
    have room2: "in_block (offset (GetAddress nd) i) s2" if "i < size' ?v" for i
      using C(4) [of "(?nb, i)"] A(3) [of "(?nb, i)"] that nd
      by (auto simp: offset_def GetAddress_def)
    have "fst (GetAddress (data' ?v)) \<noteq> fst (GetAddress nd)" using ne nd by simp
    from relocate_n_quiet [OF q2 this live2 room2, of "size' ?v" T] obtain s3 where
      r: "relocate_n T (GetAddress (data' ?v)) (size' ?v) (GetAddress nd) s2 = (Inr (), s3)"
      and q3: "faults s3 = []"
      and live3: "\<forall>i<size' ?v. cell (offset (GetAddress (data' ?v)) i) s3 \<noteq> None"
      by blast
    from destroy_n_quiet [of "size' ?v" "GetAddress (data' ?v)" s3] live3 obtain s4 where
      d: "destroy_n (GetAddress (data' ?v)) (size' ?v) s3 = (Inr (), s4)"
      and q4: "faults s4 = faults s3" by blast
    from a c r d True q3 q4 show ?thesis
      by (simp add: EmplaceBack_def Let_def andThen_def effect_def ret_def unwinding_def)
  qed
qed

lemma PushBack_quiet:
  assumes "holds this xs s" "faults s = []"
  shows "\<exists>s'. PushBack T this x s = (Inr (), s') \<and> faults s' = []"
  using EmplaceBack_quiet [OF assms, of T x] by (auto simp: PushBack_def andThen_def ret_def)

lemma push_all_quiet:
  assumes "holds this xs s" "faults s = []"
  shows "\<exists>s'. push_all T this ys s = (Inr (), s') \<and> faults s' = []"
  using assms
proof (induction ys arbitrary: xs s)
  case Nil
  then show ?case by simp
next
  case (Cons y ys)
  from PushBack_quiet [OF Cons.prems, of T y] obtain s1 where
    p: "PushBack T this y s = (Inr (), s1)" and q: "faults s1 = []" by blast
  from Cons.IH [OF PushBack_holds [OF Cons.prems(1) p] q] p show ?case by simp
qed

lemma Erase_quiet:
  fixes s :: "'a state"
  assumes h: "holds this xs s" and i: "i < length xs" and q: "faults s = []"
  shows "\<exists>r s'. Erase T this (offset (Vector_begin this s) i) s = (Inr r, s')"
proof -
  let ?v = "vecs s this"
  let ?b = "buffer' (data' ?v)"
  let ?n = "length xs"
  from h have sz: "size' ?v = ?n"
    and ce: "\<And>i. cell (?b, i) s = (if i < ?n then Some (xs ! i) else None)"
    by (simp_all add: holds_def)
  let ?I = "\<lambda>(j :: nat) (t :: 'a state).
              faults t = [] \<and> vecs t = vecs s \<and> (\<forall>k<?n. cell (?b, k) t \<noteq> None)"
  have "\<exists>s1. assign_loop (move_assign_at T) (?b, Suc i) (?b, i) (?n - Suc i) s = (Inr (), s1) \<and>
          ?I (?n - Suc i) s1"
  proof (rule assign_loop_progress [where I = ?I])
    show "?I 0 s" using q ce by simp
  next
    fix j t
    assume j: "j < ?n - Suc i" and I: "?I j t"
    have l: "cell (offset (?b, i) j) t \<noteq> None" "cell (offset (?b, Suc i) j) t \<noteq> None"
      using I j by (simp_all add: offset_def)
    from I have "faults t = []" by simp
    from move_assign_at_quiet [OF this l, of T] obtain t' where
      t': "move_assign_at T (offset (?b, i) j) (offset (?b, Suc i) j) t = (Inr (), t')"
      "faults t' = []" by blast
    note M = move_assign_at_Inr [OF t'(1)]
    have "cell (?b, k) t' \<noteq> None" if "k < ?n" for k
      using M(3) [of "(?b, k)"] I that l by (auto simp: offset_def)
    with t' M(5) I
    show "\<exists>t'. move_assign_at T (offset (?b, i) j) (offset (?b, Suc i) j) t = (Inr (), t') \<and>
            ?I (Suc j) t'" by auto
  qed
  then obtain s1 where
    m: "assign_loop (move_assign_at T) (?b, Suc i) (?b, i) (?n - Suc i) s = (Inr (), s1)"
    and v1: "vecs s1 = vecs s" and l1: "\<forall>k<?n. cell (?b, k) s1 \<noteq> None" by blast
  have "cell (?b, ?n - 1) (put this \<lparr>data' = data' ?v, size' = ?n - 1\<rparr> s1) \<noteq> None"
    using l1 i by simp
  from destroy_at_quiet [OF this] obtain s2 where
    "destroy_at (?b, ?n - 1) (put this \<lparr>data' = data' ?v, size' = ?n - 1\<rparr> s1) = (Inr (), s2)"
    by blast
  with m v1 i sz show ?thesis
    by (simp add: Erase_def Let_def Vector_begin_def andThen_def assert_def std_move_def
        offset_def GetAddress_def PopBack_def effect_def)
qed

subsection \<open>What a failed append can lose\<close>











subsection \<open>The schedule of an append that throws\<close>














text \<open>What a successful relocation leaves in the source block.\<close>

lemma relocate_n_source:
  assumes r: "relocate_n T src n dst s = (Inr r, s')" and ne: "fst src \<noteq> fst dst"
  shows "cell (fst src, i) s' =
           (if (nothrow_move_constructible T \<or> \<not> copy_constructible T) \<and>
               snd src \<le> i \<and> i < snd src + n
            then map_option (moved_from T) (cell (fst src, i) s) else cell (fst src, i) s)"
proof (cases "nothrow_move_constructible T \<or> \<not> copy_constructible T")
  case True
  with r have l: "uninit_loop (\<lambda>k. move_construct_at T (offset dst k) (offset src k)) dst 0 n s = (Inr r, s')"
    by (simp add: relocate_n_def uninitialized_move_n_def)
  let ?I = "\<lambda>j t. \<forall>i. cell (fst src, i) t =
                (if snd src \<le> i \<and> i < snd src + j
                 then map_option (moved_from T) (cell (fst src, i) s) else cell (fst src, i) s)"
  have "?I (0 + n) s'"
  proof (rule uninit_loop_Inr_inv [OF l, where I = ?I])
    show "?I 0 s" by auto
  next
    fix j t t'
    assume I: "?I j t" and m: "move_construct_at T (offset dst j) (offset src j) t = (Inr (), t')"
    note M = move_construct_at_Inr [OF m]
    show "?I (Suc j) t'"
    proof
      fix i
      have "(fst src, i) \<noteq> offset dst j" using ne by (auto simp: offset_def)
      moreover have "((fst src, i) = offset src j) = (i = snd src + j)" by (auto simp: offset_def)
      moreover have "cell (offset src j) t = cell (fst src, snd src + j) s"
        using I by (simp add: offset_def)
      ultimately show "cell (fst src, i) t' =
                (if snd src \<le> i \<and> i < snd src + Suc j
                 then map_option (moved_from T) (cell (fst src, i) s) else cell (fst src, i) s)"
        using M(3) [of "(fst src, i)"] I by (auto simp: less_Suc_eq)
    qed
  qed
  with True show ?thesis by simp
next
  case False
  with r have l: "uninit_loop (\<lambda>k. copy_construct_at (offset dst k) (offset src k)) dst 0 n s = (Inr r, s')"
    by (simp add: relocate_n_def uninitialized_copy_n_def)
  let ?I = "\<lambda>(j :: nat) t. \<forall>i. cell (fst src, i) t = cell (fst src, i) s"
  have "?I (0 + n) s'"
  proof (rule uninit_loop_Inr_inv [OF l, where I = ?I])
    show "?I 0 s" by simp
  next
    fix j t t'
    assume I: "?I j t" and m: "copy_construct_at (offset dst j) (offset src j) t = (Inr (), t')"
    note M = copy_construct_at_Inr [OF m]
    show "?I (Suc j) t'"
    proof
      fix i
      have "(fst src, i) \<noteq> offset dst j" using ne by (auto simp: offset_def)
      then show "cell (fst src, i) t' = cell (fst src, i) s"
        using M(3) [of "(fst src, i)"] I by simp
    qed
  qed
  with False show ?thesis by simp
qed





text \<open>The first entry of a schedule that tells a step to throw.\<close>

lemma first_fault_simps [simp]:
  "first_fault [] = 0" "first_fault (b # bs) = (if b then 0 else Suc (first_fault bs))"
  by (simp_all add: first_fault_def)










subsection \<open>Insertion into a full vector\<close>

lemma holds_block_length:
  assumes "holds this xs s" "buffer' (data' (vecs s this)) \<noteq> 0"
  shows "length (heap s (buffer' (data' (vecs s this)))) = capacity' (data' (vecs s this))"
proof -
  let ?b = "buffer' (data' (vecs s this))"
  let ?c = "capacity' (data' (vecs s this))"
  from assms have lt: "(i < length (heap s ?b)) = (i < ?c)" for i
    by (auto simp: holds_def in_block_def dest: spec [of _ i])
  from lt [of ?c] lt [of "length (heap s ?b)"] show ?thesis by simp
qed

lemma EmplaceBack_allocs:
  assumes "EmplaceBack T this x s = (Inr p, s')"
  shows "allocs s' = (if capacity' (data' (vecs s this)) \<le> size' (vecs s this)
                      then Suc (allocs s) else allocs s)"
  using assms
  by (auto simp: EmplaceBack_def Let_def andThen_Inr effect_eq ret_eq unwinding_Inr commit_obs
      dest!: RawMemory_ctor_Inr(2) soD [OF so_relocate_n] soD [OF so_destroy_n]
        soD [OF so_construct_at]
      split: if_splits)

text \<open>A successful insertion into a full vector.\<close>

lemma inserted_nth:
  "i \<le> length xs \<Longrightarrow> j \<le> length xs \<Longrightarrow>
     (take i xs @ x # drop i xs) ! j =
       (if j < i then xs ! j else if j = i then x else xs ! (j - 1))"
  by (auto simp: nth_append nth_Cons' min_def)

lemma Emplace_full_holds:
  assumes h: "holds this xs s" and full: "length xs = Capacity this s"
    and e: "Emplace T this pos x s = (Inr q, s')"
  shows "holds this (take (snd pos) xs @ x # drop (snd pos) xs) s'"
    and "allocs s' = Suc (allocs s)"
    and "q = (Suc (allocs s), snd pos)" and "snd pos \<le> length xs"
    and "fst pos = buffer' (data' (vecs s this))"
proof -
  let ?v = "vecs s this"
  let ?b = "buffer' (data' ?v)"
  let ?c = "capacity' (data' ?v)"
  let ?i = "snd pos"
  let ?n = "if size' ?v = 0 then 1 else size' ?v * 2"
  let ?nb = "Suc (allocs s)"
  let ?nd = "\<lparr>buffer' = ?nb, capacity' = ?n\<rparr>"
  let ?ys = "take ?i xs @ x # drop ?i xs"
  from h have sz: "size' ?v = length xs" and al: "?b \<le> allocs s"
    and ce: "\<And>i. cell (?b, i) s = (if i < length xs then Some (xs ! i) else None)"
    by (simp_all add: holds_def)
  have ns: "\<not> size' ?v < ?c" using full sz by (simp add: Capacity_def)
  from e ns obtain nd p1 s1 s2 s3 s4 s5 where
    fp: "fst pos = ?b"
    and a: "RawMemory_ctor ?n s = (Inr nd, s1)"
    and c: "construct_at (offset (GetAddress nd) ?i) x s1 = (Inr p1, s2)"
    and il: "\<not> size' ?v < ?i"
    and r1: "relocate_n T (GetAddress (data' ?v)) ?i (GetAddress nd) s2 = (Inr (), s3)"
    and r2: "relocate_n T (offset (GetAddress (data' ?v)) ?i) (size' ?v - ?i)
               (offset (GetAddress nd) (?i + 1)) s3 = (Inr (), s4)"
    and d: "destroy_n (GetAddress (data' ?v)) (size' ?v) s4 = (Inr (), s5)"
    and s': "s' = grow this (commit this nd s5)"
    and q: "q = offset (Vector_begin this s') ?i"
    by (auto simp: Emplace_def Let_def andThen_Inr effect_eq ret_eq raise_eq unwinding_Inr
        assert_Inr split: if_splits)
  have nd: "nd = ?nd" using RawMemory_ctor_Inr(1) [OF a] by (simp split: if_splits)
  have n0: "?n \<noteq> 0" by simp
  have ile: "?i \<le> length xs" using il sz by simp
  note A = RawMemory_ctor_Inr [OF a]
  note C = construct_at_Inr [OF c]
  note R1 = relocate_n_frame [OF r1]
  note R2 = relocate_n_frame [OF r2]
  note D = destroy_n_frame [OF d]
  have ne: "?nb \<noteq> ?b" using al by simp
  have sd1: "fst (GetAddress (data' ?v)) \<noteq> fst (GetAddress nd)" using ne nd by simp
  have sd2: "fst (offset (GetAddress (data' ?v)) ?i) \<noteq> fst (offset (GetAddress nd) (?i + 1))"
    using ne nd by simp
  have v5: "vecs s5 = vecs s" using A(7) C(5) R1(1) R2(1) D(1) by simp
  have vs': "vecs s' this = \<lparr>data' = ?nd, size' = Suc (length xs)\<rparr>"
    using v5 sz by (simp add: s' grow_vecs commit_vecs nd)
  have al': "allocs s' = ?nb"
    using A(2) C(6) R1(2) R2(2) D(2) n0 by (simp add: s' commit_obs)
  have ib': "in_block (?nb, j) s' = (j < ?n)" for j
    using A(3) [of "(?nb, j)"] C(4) [of "(?nb, j)"] R1(3) [of "(?nb, j)"] R2(3) [of "(?nb, j)"]
      D(3) [of "(?nb, j)"] ne v5
    by (simp add: s' commit_obs)
  have c2: "cell (?nb, j) s2 = (if j = ?i then Some x else None)" for j
    using A(4) [of "(?nb, j)"] C(3) [of "(?nb, j)"] C(1) nd
    by (auto simp: offset_def GetAddress_def)
  have c2b: "cell (?b, j) s2 = cell (?b, j) s" for j
    using A(4) [of "(?b, j)"] C(3) [of "(?b, j)"] C(1) nd ne
    by (auto simp: offset_def GetAddress_def)
  have c3: "cell (?nb, j) s3 = (if j < ?i then Some (xs ! j) else if j = ?i then Some x else None)" for j
    using relocate_n_cells [OF r1 sd1, of "(?nb, j)"] ne nd c2 [of j] c2b ce ile
    by (auto simp: GetAddress_def)
  have c3b: "cell (?b, j) s3 = cell (?b, j) s" if "?i \<le> j" for j
    using relocate_n_source [OF r1 sd1, of j] c2b [of j] that by (simp add: GetAddress_def)
  have c4: "cell (?nb, j) s4 =
      (if j < ?i then Some (xs ! j) else if j = ?i then Some x
       else if j \<le> length xs then Some (xs ! (j - 1)) else None)" for j
  proof (cases "?i + 1 \<le> j \<and> j < ?i + 1 + (size' ?v - ?i)")
    case True
    then have "cell (?nb, j) s4 = cell (?b, ?i + (j - (?i + 1))) s3"
      using relocate_n_cells [OF r2 sd2, of "(?nb, j)"] ne nd
      by (simp add: GetAddress_def offset_def)
    also have "?i + (j - (?i + 1)) = j - 1" using True by arith
    also have "cell (?b, j - 1) s3 = cell (?b, j - 1) s"
    proof (rule c3b)
      show "?i \<le> j - 1" using True by arith
    qed
    finally show ?thesis using True ce [of "j - 1"] sz ile by auto
  next
    case False
    then have "cell (?nb, j) s4 = cell (?nb, j) s3"
      using relocate_n_cells [OF r2 sd2, of "(?nb, j)"] ne nd
      by (auto simp: GetAddress_def offset_def)
    with False c3 [of j] sz ile show ?thesis by auto
  qed
  have c5: "cell (?nb, j) s5 = cell (?nb, j) s4" for j
    using D(4) [of "(?nb, j)"] ne by simp
  have len: "length ?ys = Suc (length xs)" using ile by simp
  have "cell (?nb, j) s' = (if j \<le> length xs then Some (?ys ! j) else None)" for j
    using c4 [of j] c5 [of j] ne v5 ile by (auto simp: s' commit_obs inserted_nth)
  then have ce': "cell (?nb, j) s' = (if j < length ?ys then Some (?ys ! j) else None)" for j
    by (simp only: len less_Suc_eq_le)
  have "Suc (length xs) \<le> ?n" using sz by (cases xs) simp_all
  then show "holds this ?ys s'"
    unfolding holds_def using vs' al' ib' ce' len by simp
  show "allocs s' = ?nb" by (rule al')
  show "q = (?nb, ?i)" using q vs' by (simp add: Vector_begin_def offset_def GetAddress_def)
  show "?i \<le> length xs" by (rule ile)
  show "fst pos = ?b" by (rule fp)
qed

text \<open>With nothing scheduled to throw, an insertion into a full vector succeeds.\<close>

lemma Emplace_full_quiet:
  assumes h: "holds this xs s" and full: "length xs = Capacity this s" and q: "faults s = []"
    and i: "i < length xs \<or> (NDEBUG T \<and> i \<le> length xs)"
  shows "\<exists>r s'. Emplace T this (offset (Vector_begin this s) i) x s = (Inr r, s')"
proof -
  let ?v = "vecs s this"
  let ?b = "buffer' (data' ?v)"
  let ?c = "capacity' (data' ?v)"
  let ?k = "size' ?v"
  let ?n = "if ?k = 0 then 1 else ?k * 2"
  let ?nb = "Suc (allocs s)"
  let ?src = "GetAddress (data' ?v)"
  from h have sz: "?k = length xs" and al: "?b \<le> allocs s"
    and ce: "\<And>i. cell (?b, i) s = (if i < length xs then Some (xs ! i) else None)"
    by (simp_all add: holds_def)
  have ns: "\<not> ?k < ?c" using full sz by (simp add: Capacity_def)
  have ik: "i \<le> ?k" using i sz by auto
  from RawMemory_ctor_quiet [OF q, of ?n] obtain nd s1 where
    a: "RawMemory_ctor ?n s = (Inr nd, s1)" and q1: "faults s1 = []" by blast
  note A = RawMemory_ctor_Inr [OF a]
  have nd: "nd = \<lparr>buffer' = ?nb, capacity' = ?n\<rparr>" using A(1) by (simp split: if_splits)
  have ne: "?nb \<noteq> ?b" using al by simp
  have kn: "?k < ?n" by simp
  have "in_block (offset (GetAddress nd) i) s1"
    using A(3) [of "(?nb, i)"] nd ik kn by (simp add: offset_def GetAddress_def)
  from construct_at_quiet [OF q1 this, of x] obtain s2 where
    c: "construct_at (offset (GetAddress nd) i) x s1 = (Inr (offset (GetAddress nd) i), s2)"
    and q2: "faults s2 = []" by blast
  note C = construct_at_Inr [OF c]
  have c2b: "cell (?b, j) s2 = cell (?b, j) s" for j
    using A(4) [of "(?b, j)"] C(3) [of "(?b, j)"] nd ne
    by (auto simp: offset_def GetAddress_def)
  have ib2: "in_block (?nb, j) s2 = (j < ?n)" for j
    using C(4) [of "(?nb, j)"] A(3) [of "(?nb, j)"] by simp
  have sd1: "fst ?src \<noteq> fst (GetAddress nd)" using ne nd by simp
  have sd2: "fst (offset ?src i) \<noteq> fst (offset (GetAddress nd) (i + 1))" using ne nd by simp
  have live2: "cell (offset ?src j) s2 \<noteq> None" if "j < i" for j
    using c2b [of j] ce [of j] that ik sz by (simp add: offset_def GetAddress_def)
  have room2: "in_block (offset (GetAddress nd) j) s2" if "j < i" for j
    using ib2 [of j] that ik kn nd by (simp add: offset_def GetAddress_def)
  from relocate_n_quiet [OF q2 sd1 live2 room2, of i T] obtain s3 where
    r1: "relocate_n T ?src i (GetAddress nd) s2 = (Inr (), s3)" and q3: "faults s3 = []"
    by blast
  note R1 = relocate_n_frame [OF r1]
  have c3b: "cell (?b, j) s3 \<noteq> None" if "j < ?k" for j
    using relocate_n_source [OF r1 sd1, of j] c2b [of j] ce [of j] that sz
    by (auto simp: GetAddress_def)
  have live3: "cell (offset (offset ?src i) j) s3 \<noteq> None" if "j < ?k - i" for j
    using c3b [of "i + j"] that by (simp add: offset_def GetAddress_def)
  have room3: "in_block (offset (offset (GetAddress nd) (i + 1)) j) s3" if "j < ?k - i" for j
    using R1(3) [of "(?nb, Suc (i + j))"] ib2 [of "Suc (i + j)"] that kn nd
    by (simp add: offset_def GetAddress_def)
  from relocate_n_quiet [OF q3 sd2 live3 room3, of "?k - i" T] obtain s4 where
    r2: "relocate_n T (offset ?src i) (?k - i) (offset (GetAddress nd) (i + 1)) s3 = (Inr (), s4)"
    by blast
  have live4: "cell (offset ?src j) s4 \<noteq> None" if "j < ?k" for j
    using relocate_n_source [OF r2 sd2, of j] c3b [OF that]
    by (auto simp: GetAddress_def offset_def)
  from destroy_n_quiet [of ?k ?src s4] live4 obtain s5 where
    d: "destroy_n ?src ?k s4 = (Inr (), s5)" by blast
  have p: "offset (Vector_begin this s) i = (?b, i)"
    by (simp add: Vector_begin_def offset_def GetAddress_def)
  have as: "NDEBUG T \<or> i < ?k" using i sz by auto
  from a c r1 r2 d ns ik as show ?thesis
    unfolding p
    by (simp add: Emplace_def Let_def andThen_def effect_def ret_def unwinding_def assert_def
        raise_def)
qed


subsection \<open>The example inputs\<close>

lemma holds_st_full: "holds 0 [10, 20] (st_full fs)"
  by (auto simp: holds_def st_full_def in_block_def cell_def less_Suc_eq numeral_2_eq_2)

lemma holds_st_spare: "holds 0 [10, 20] st_spare"
  by (auto simp: holds_def st_spare_def in_block_def cell_def less_Suc_eq numeral_2_eq_2
      numeral_3_eq_3)

lemma heap_put [simp]: "heap (put this v s) = heap s"
  by (simp add: put_def)

lemma holds_frame:
  assumes "holds this xs s" "vecs s' this = vecs s this" "allocs s \<le> allocs s'"
    "heap s' (buffer' (data' (vecs s this))) = heap s (buffer' (data' (vecs s this)))"
  shows "holds this xs s'"
proof -
  let ?b = "buffer' (data' (vecs s this))"
  have "in_block (?b, i) s' = in_block (?b, i) s" for i
    using assms(4) by (simp add: in_block_def)
  moreover have "cell (?b, i) s' = cell (?b, i) s" for i
    using assms(4) by (simp add: cell_def in_block_def)
  ultimately show ?thesis
    using assms(1-3) by (simp add: holds_def)
qed

section \<open>The claims\<close>

subsection \<open>C1: a reallocating append that throws\<close>




subsection \<open>C2: a sequence of appends\<close>

text \<open>
  Claim C2. For every empty vector (one that satisfies the invariant with no elements,
  whatever its capacity; a newly constructed vector is one) and every finite sequence of
  values pushed onto it with \<^verbatim>\<open>PushBack\<close>: when all the pushes return, \<^verbatim>\<open>Size()\<close> is the
  number of pushes and reading the element at every index \<open>i\<close> below it returns the
  \<open>i\<close>-th value pushed. When nothing is scheduled to throw, all the pushes do return.
\<close>

theorem PushBack_sequence:
  assumes "holds this [] s"
  shows "(push_all T this xs s = (Inr u, s') \<longrightarrow>
            Size this s' = length xs \<and>
            (\<forall>i<length xs. read_at T this i s' = (Inr (xs ! i), s'))) \<and>
         (faults s = [] \<longrightarrow> (\<exists>s'. push_all T this xs s = (Inr (), s')))"
proof (intro conjI impI)
  assume a: "push_all T this xs s = (Inr u, s')"
  have h: "holds this xs s'"
    using push_all_holds [OF assms a] by simp
  then show "Size this s' = length xs" by (simp add: holds_def Size_def)
  from h show "\<forall>i<length xs. read_at T this i s' = (Inr (xs ! i), s')"
    by (simp add: read_at_holds)
next
  assume "faults s = []"
  from push_all_quiet [OF assms this]
  show "\<exists>s'. push_all T this xs s = (Inr (), s')"
    by blast
qed

theorem PushBack_sequence_witness:
  "holds 0 [] (Vector_ctor 0 st_empty) \<and> faults (Vector_ctor 0 st_empty) = [] \<and>
   fst pushed = Inr () \<and> Size 0 (snd pushed) = 3 \<and>
   fst (read_at T_nothrow 0 0 (snd pushed)) = Inr 10 \<and>
   fst (read_at T_nothrow 0 1 (snd pushed)) = Inr 20 \<and>
   fst (read_at T_nothrow 0 2 (snd pushed)) = Inr 30"
proof -
  have h: "holds 0 [] (Vector_ctor 0 st_empty)" by (rule holds_Vector_ctor)
  have q: "faults (Vector_ctor 0 st_empty) = []"
    by (simp add: st_empty_def Vector_ctor_def put_def)
  note t = PushBack_sequence [OF h, of T_nothrow "[10, 20, 30]" "()" "snd pushed"]
  from t q have f: "fst pushed = Inr ()" by (auto simp: pushed_def)
  then have e: "push_all T_nothrow 0 [10, 20, 30] (Vector_ctor 0 st_empty) = (Inr (), snd pushed)"
    by (simp add: pushed_def prod_eq_iff)
  from t e have "Size 0 (snd pushed) = 3"
    "\<forall>i<3. read_at T_nothrow 0 i (snd pushed) = (Inr ([10, 20, 30] ! i), snd pushed)"
    by simp_all
  with h q f show ?thesis by simp
qed

subsection \<open>C3: inserting at the end\<close>

text \<open>
  Claim C3 says that \<^verbatim>\<open>end()\<close> is a valid position for \<^verbatim>\<open>Emplace\<close> and \<^verbatim>\<open>Insert\<close>, also
  for the debug-time assertion. The source asserts \<^verbatim>\<open>pos >= begin() && pos < end()\<close>:
  in a build with assertions, for every vector, emplacing or inserting at \<^verbatim>\<open>end()\<close> fails
  the assertion and changes nothing.
\<close>

theorem Emplace_at_end_fails_assertion:
  assumes "\<not> NDEBUG T"
  shows "Emplace T this (Vector_end this s) x s = (Inl AssertionFailed, s) \<and>
         Insert T this (Vector_end this s) x s = (Inl AssertionFailed, s)"
  using assms
  by (simp add: Insert_def Emplace_def Vector_end_def offset_def GetAddress_def andThen_def
      assert_def)

theorem Emplace_at_end_fails_assertion_witness:
  "\<not> NDEBUG T_nothrow \<and> Vector_end 0 st_spare = (1, 2) \<and>
   Emplace T_nothrow 0 (1, 2) 30 st_spare = (Inl AssertionFailed, st_spare)"
proof -
  have h: "\<not> NDEBUG T_nothrow" by (simp add: T_nothrow_def)
  have e: "Vector_end 0 st_spare = (1, 2)"
    by (simp add: Vector_end_def st_spare_def offset_def GetAddress_def)
  from Emplace_at_end_fails_assertion [OF h, of 0 st_spare 30] e h show ?thesis by simp
qed

text \<open>
  The branch \<^verbatim>\<open>if (pos == end())\<close> of the same function does what the claim says, and is
  reached only when assertions are compiled out: there the call appends.
\<close>

lemma Emplace_at_end_release_build:
  "fst (Emplace T_release 0 (1, 2) 30 st_spare) = Inr (1, 2) \<and>
   heap (snd (Emplace T_release 0 (1, 2) 30 st_spare)) 1 = [Some 10, Some 20, Some 30] \<and>
   Size 0 (snd (Emplace T_release 0 (1, 2) 30 st_spare)) = 3"
proof -
  have "fst (Emplace T_release 0 (1, 2) 30 st_spare) = Inr (1, 2)" by code_simp
  moreover have "heap (snd (Emplace T_release 0 (1, 2) 30 st_spare)) 1 = [Some 10, Some 20, Some 30]"
    by code_simp
  moreover have "Size 0 (snd (Emplace T_release 0 (1, 2) 30 st_spare)) = 3" by code_simp
  ultimately show ?thesis by simp
qed

subsection \<open>C4: relocation by move or by copy\<close>




subsection \<open>C5: the growth policy\<close>

text \<open>
  Claim C5. For every vector that satisfies the data model's invariant with its length
  equal to its capacity, a successful \<^verbatim>\<open>EmplaceBack\<close>, \<^verbatim>\<open>PushBack\<close>, \<^verbatim>\<open>Emplace\<close> or
  \<^verbatim>\<open>Insert\<close> allocates one new block of \<open>max 1 (2 * old capacity)\<close> slots (double the
  old capacity, or 1 when that was 0), which becomes the buffer of the vector, so that
  its capacity is that number; the vector satisfies the invariant there with the new
  element appended, or inserted at the position given. With nothing scheduled to throw
  the calls do succeed, \<^verbatim>\<open>Emplace\<close> and \<^verbatim>\<open>Insert\<close> at every position before the end.
\<close>

theorem growth_doubles_capacity:
  assumes "holds this xs s" and "length xs = Capacity this s"
  shows "(EmplaceBack T this x s = (Inr p, s1) \<longrightarrow>
            regrown this s s1 \<and> holds this (xs @ [x]) s1) \<and>
         (PushBack T this x s = (Inr u, s2) \<longrightarrow>
            regrown this s s2 \<and> holds this (xs @ [x]) s2) \<and>
         (Emplace T this pos x s = (Inr q, s3) \<longrightarrow>
            regrown this s s3 \<and> holds this (take (snd pos) xs @ x # drop (snd pos) xs) s3) \<and>
         (Insert T this pos x s = (Inr q, s4) \<longrightarrow>
            regrown this s s4 \<and> holds this (take (snd pos) xs @ x # drop (snd pos) xs) s4) \<and>
         (faults s = [] \<longrightarrow>
            (\<exists>r s'. EmplaceBack T this x s = (Inr r, s')) \<and>
            (\<exists>s'. PushBack T this x s = (Inr (), s')) \<and>
            (\<forall>i<length xs.
               (\<exists>r s'. Emplace T this (offset (Vector_begin this s) i) x s = (Inr r, s')) \<and>
               (\<exists>r s'. Insert T this (offset (Vector_begin this s) i) x s = (Inr r, s'))))"
proof -
  from assms have sz: "size' (vecs s this) = capacity' (data' (vecs s this))"
    by (simp add: holds_def Capacity_def)
  have eb: "regrown this s t \<and> holds this (xs @ [x]) t"
    if e: "EmplaceBack T this x s = (Inr r, t)" for r t
  proof -
    have h: "holds this (xs @ [x]) t" using assms(1) e by (rule EmplaceBack_holds(1))
    have v: "buffer' (data' (vecs t this)) = Suc (allocs s)"
      "capacity' (data' (vecs t this)) = max 1 (2 * capacity' (data' (vecs s this)))"
      using EmplaceBack_vecs [OF e] sz by auto
    have a: "allocs t = Suc (allocs s)" using EmplaceBack_allocs [OF e] sz by simp
    from holds_block_length [OF h] v
    have "length (heap t (Suc (allocs s))) = max 1 (2 * capacity' (data' (vecs s this)))"
      by simp
    with h v a show ?thesis by (simp add: regrown_def Capacity_def)
  qed
  have em: "regrown this s t \<and> holds this (take (snd pos) xs @ x # drop (snd pos) xs) t"
    if e: "Emplace T this pos x s = (Inr r, t)" for r t
  proof -
    note H = Emplace_full_holds [OF assms e]
    have v: "buffer' (data' (vecs t this)) = Suc (allocs s)"
      "capacity' (data' (vecs t this)) = max 1 (2 * capacity' (data' (vecs s this)))"
      using Emplace_vecs [OF e] sz by auto
    from holds_block_length [OF H(1)] v
    have "length (heap t (Suc (allocs s))) = max 1 (2 * capacity' (data' (vecs s this)))"
      by simp
    with H(1,2) v show ?thesis by (simp add: regrown_def Capacity_def)
  qed
  have pr: "(\<exists>r s'. EmplaceBack T this x s = (Inr r, s')) \<and>
            (\<exists>s'. PushBack T this x s = (Inr (), s')) \<and>
            (\<forall>i<length xs.
               (\<exists>r s'. Emplace T this (offset (Vector_begin this s) i) x s = (Inr r, s')) \<and>
               (\<exists>r s'. Insert T this (offset (Vector_begin this s) i) x s = (Inr r, s')))"
    if f: "faults s = []"
  proof -
    from EmplaceBack_quiet [OF assms(1) f, of T x]
    have 1: "\<exists>r s'. EmplaceBack T this x s = (Inr r, s')" by blast
    from PushBack_quiet [OF assms(1) f, of T x]
    have 2: "\<exists>s'. PushBack T this x s = (Inr (), s')" by blast
    have 3: "\<exists>r s'. Emplace T this (offset (Vector_begin this s) i) x s = (Inr r, s')"
      if "i < length xs" for i
      using that by (intro Emplace_full_quiet [OF assms f]) simp
    from 1 2 3 show ?thesis by (simp add: Insert_def)
  qed
  have pb: "regrown this s t \<and> holds this (xs @ [x]) t"
    if "PushBack T this x s = (Inr r, t)" for r t
    using that eb by (auto simp: PushBack_def andThen_Inr ret_eq)
  from eb pb em pr show ?thesis unfolding Insert_def by blast
qed

theorem growth_doubles_capacity_witness:
  "holds 0 [10, 20] (st_full []) \<and> length [10, 20 :: nat] = Capacity 0 (st_full []) \<and>
   Capacity 0 (st_full []) = 2 \<and> allocs (st_full []) = 1 \<and> faults (st_full []) = [] \<and>
   fst (EmplaceBack T_nothrow 0 30 (st_full [])) = Inr (2, 2) \<and>
   allocs (snd (EmplaceBack T_nothrow 0 30 (st_full []))) = 2 \<and>
   length (heap (snd (EmplaceBack T_nothrow 0 30 (st_full []))) 2) = 4 \<and>
   Capacity 0 (snd (EmplaceBack T_nothrow 0 30 (st_full []))) = 4 \<and>
   holds 0 [10, 20, 30] (snd (EmplaceBack T_nothrow 0 30 (st_full []))) \<and>
   fst (PushBack T_nothrow 0 30 (st_full [])) = Inr () \<and>
   Capacity 0 (snd (PushBack T_nothrow 0 30 (st_full []))) = 4 \<and>
   fst (Emplace T_nothrow 0 (1, 1) 15 (st_full [])) = Inr (2, 1) \<and>
   allocs (snd (Emplace T_nothrow 0 (1, 1) 15 (st_full []))) = 2 \<and>
   length (heap (snd (Emplace T_nothrow 0 (1, 1) 15 (st_full []))) 2) = 4 \<and>
   Capacity 0 (snd (Emplace T_nothrow 0 (1, 1) 15 (st_full []))) = 4 \<and>
   holds 0 [10, 15, 20] (snd (Emplace T_nothrow 0 (1, 1) 15 (st_full []))) \<and>
   fst (Insert T_nothrow 0 (1, 1) 15 (st_full [])) = Inr (2, 1) \<and>
   Capacity 0 (snd (Insert T_nothrow 0 (1, 1) 15 (st_full []))) = 4 \<and>
   holds 0 [] (Vector_ctor 0 st_empty) \<and> Capacity 0 (Vector_ctor 0 st_empty) = 0 \<and>
   allocs (snd (EmplaceBack T_nothrow 0 30 (Vector_ctor 0 st_empty))) = 1 \<and>
   length (heap (snd (EmplaceBack T_nothrow 0 30 (Vector_ctor 0 st_empty))) 1) = 1 \<and>
   Capacity 0 (snd (EmplaceBack T_nothrow 0 30 (Vector_ctor 0 st_empty))) = 1 \<and>
   holds 0 [30] (snd (EmplaceBack T_nothrow 0 30 (Vector_ctor 0 st_empty)))"
proof -
  let ?s = "st_full [] :: nat state"
  let ?e = "Vector_ctor 0 st_empty :: nat state"
  have c: "length [10, 20 :: nat] = Capacity 0 ?s" "Capacity 0 ?s = 2" "allocs ?s = 1"
    "faults ?s = []" "offset (Vector_begin 0 ?s) 1 = (1, 1)"
    by (simp_all add: Capacity_def st_full_def Vector_begin_def offset_def GetAddress_def)
  have ce: "length ([] :: nat list) = Capacity 0 ?e" "Capacity 0 ?e = 0" "allocs ?e = 0"
    "faults ?e = []"
    by (simp_all add: Capacity_def Vector_ctor_def Vector_default_def RawMemory_default_def
        st_empty_def)
  have f1: "fst (EmplaceBack T_nothrow 0 30 ?s) = Inr (2, 2)" by code_simp
  have f2: "fst (PushBack T_nothrow 0 30 ?s) = Inr ()" by code_simp
  have f3: "fst (Emplace T_nothrow 0 (1, 1) 15 ?s) = Inr (2, 1)" by code_simp
  have f4: "fst (Insert T_nothrow 0 (1, 1) 15 ?s) = Inr (2, 1)" using f3 by (simp add: Insert_def)
  have e1: "EmplaceBack T_nothrow 0 30 ?s = (Inr (2, 2), snd (EmplaceBack T_nothrow 0 30 ?s))"
    using f1 by (simp add: prod_eq_iff)
  have e2: "PushBack T_nothrow 0 30 ?s = (Inr (), snd (PushBack T_nothrow 0 30 ?s))"
    using f2 by (simp add: prod_eq_iff)
  have e3: "Emplace T_nothrow 0 (1, 1) 15 ?s = (Inr (2, 1), snd (Emplace T_nothrow 0 (1, 1) 15 ?s))"
    using f3 by (simp add: prod_eq_iff)
  have e4: "Insert T_nothrow 0 (1, 1) 15 ?s = (Inr (2, 1), snd (Insert T_nothrow 0 (1, 1) 15 ?s))"
    using f4 by (simp add: prod_eq_iff)
  from growth_doubles_capacity [OF holds_st_full c(1), of T_nothrow 30 "(2, 2)"
      "snd (EmplaceBack T_nothrow 0 30 ?s)" "()" "snd (PushBack T_nothrow 0 30 ?s)"]
  have a: "regrown 0 ?s (snd (EmplaceBack T_nothrow 0 30 ?s))"
    "holds 0 [10, 20, 30] (snd (EmplaceBack T_nothrow 0 30 ?s))"
    "regrown 0 ?s (snd (PushBack T_nothrow 0 30 ?s))"
    using e1 e2 by simp_all
  from growth_doubles_capacity [OF holds_st_full c(1), of T_nothrow 15 _ _ _ _ "(1, 1)" "(2, 1)"
      "snd (Emplace T_nothrow 0 (1, 1) 15 ?s)" "snd (Insert T_nothrow 0 (1, 1) 15 ?s)"]
  have b: "regrown 0 ?s (snd (Emplace T_nothrow 0 (1, 1) 15 ?s))"
    "holds 0 [10, 15, 20] (snd (Emplace T_nothrow 0 (1, 1) 15 ?s))"
    "regrown 0 ?s (snd (Insert T_nothrow 0 (1, 1) 15 ?s))"
    using e3 e4 by simp_all
  from growth_doubles_capacity [OF holds_Vector_ctor ce(1), of T_nothrow 30] ce(4)
  obtain r t where e0: "EmplaceBack T_nothrow 0 30 ?e = (Inr r, t)" by blast
  from growth_doubles_capacity [OF holds_Vector_ctor ce(1), of T_nothrow 30 r t] e0
  have d: "regrown 0 ?e t" "holds 0 [30] t" by simp_all
  have t: "snd (EmplaceBack T_nothrow 0 30 ?e) = t" using e0 by simp
  from d ce have d': "allocs t = 1" "length (heap t 1) = 1" "Capacity 0 t = 1"
    by (simp_all add: regrown_def)
  from a b c f1 f2 f3 f4 holds_st_full
  have 1: "holds 0 [10, 20] (st_full []) \<and> length [10, 20 :: nat] = Capacity 0 (st_full []) \<and>
   Capacity 0 (st_full []) = 2 \<and> allocs (st_full []) = 1 \<and> faults (st_full []) = [] \<and>
   fst (EmplaceBack T_nothrow 0 30 (st_full [])) = Inr (2, 2) \<and>
   allocs (snd (EmplaceBack T_nothrow 0 30 (st_full []))) = 2 \<and>
   length (heap (snd (EmplaceBack T_nothrow 0 30 (st_full []))) 2) = 4 \<and>
   Capacity 0 (snd (EmplaceBack T_nothrow 0 30 (st_full []))) = 4 \<and>
   holds 0 [10, 20, 30] (snd (EmplaceBack T_nothrow 0 30 (st_full []))) \<and>
   fst (PushBack T_nothrow 0 30 (st_full [])) = Inr () \<and>
   Capacity 0 (snd (PushBack T_nothrow 0 30 (st_full []))) = 4 \<and>
   fst (Emplace T_nothrow 0 (1, 1) 15 (st_full [])) = Inr (2, 1) \<and>
   allocs (snd (Emplace T_nothrow 0 (1, 1) 15 (st_full []))) = 2 \<and>
   length (heap (snd (Emplace T_nothrow 0 (1, 1) 15 (st_full []))) 2) = 4 \<and>
   Capacity 0 (snd (Emplace T_nothrow 0 (1, 1) 15 (st_full []))) = 4 \<and>
   holds 0 [10, 15, 20] (snd (Emplace T_nothrow 0 (1, 1) 15 (st_full []))) \<and>
   fst (Insert T_nothrow 0 (1, 1) 15 (st_full [])) = Inr (2, 1) \<and>
   Capacity 0 (snd (Insert T_nothrow 0 (1, 1) 15 (st_full []))) = 4"
    by (simp add: regrown_def numeral_2_eq_2)
  from holds_Vector_ctor [of 0 st_empty] ce(2) d(2) d'
  have 2: "holds 0 [] (Vector_ctor 0 st_empty) \<and> Capacity 0 (Vector_ctor 0 st_empty) = 0 \<and>
   allocs (snd (EmplaceBack T_nothrow 0 30 (Vector_ctor 0 st_empty))) = 1 \<and>
   length (heap (snd (EmplaceBack T_nothrow 0 30 (Vector_ctor 0 st_empty))) 1) = 1 \<and>
   Capacity 0 (snd (EmplaceBack T_nothrow 0 30 (Vector_ctor 0 st_empty))) = 1 \<and>
   holds 0 [30] (snd (EmplaceBack T_nothrow 0 30 (Vector_ctor 0 st_empty)))"
    unfolding t by simp
  from 1 2 show ?thesis by (simp only: conj_assoc)
qed

subsection \<open>C6: erasing\<close>

text \<open>
  Claim C6. For every vector that satisfies the invariant with elements \<open>xs\<close> and every
  index \<open>i\<close> below its length, a successful \<^verbatim>\<open>Erase\<close> at \<^verbatim>\<open>begin() + i\<close> leaves the length
  one smaller; reading index \<open>j\<close> then returns the old element \<open>j\<close> for \<open>j < i\<close> and the old
  element \<open>j + 1\<close> from \<open>i\<close> on (the elements are \<open>xs\<close> without its \<open>i\<close>-th); the returned
  iterator is \<^verbatim>\<open>begin() + i\<close>, which is \<^verbatim>\<open>end()\<close> exactly when the last element was
  erased. When nothing is scheduled to throw, the call does succeed.
\<close>

theorem Erase_shifts_left:
  assumes "holds this xs s" and "i < length xs"
  shows "(Erase T this (offset (Vector_begin this s) i) s = (Inr r, s') \<longrightarrow>
            Size this s' = length xs - 1 \<and>
            (\<forall>j<length xs - 1.
               read_at T this j s' = (Inr (if j < i then xs ! j else xs ! Suc j), s')) \<and>
            holds this (take i xs @ drop (Suc i) xs) s' \<and>
            r = offset (Vector_begin this s') i \<and>
            (r = Vector_end this s' \<longleftrightarrow> i = length xs - 1)) \<and>
         (faults s = [] \<longrightarrow>
            (\<exists>r s'. Erase T this (offset (Vector_begin this s) i) s = (Inr r, s')))"
proof (intro conjI impI)
  assume e: "Erase T this (offset (Vector_begin this s) i) s = (Inr r, s')"
  note E = Erase_holds [OF assms e]
  let ?ys = "take i xs @ drop (Suc i) xs"
  have len: "length ?ys = length xs - 1" using assms(2) by simp
  show h: "holds this ?ys s'" by (rule E(1))
  then show sz: "Size this s' = length xs - 1"
    using len by (simp add: holds_def Size_def del: length_append)
  show "\<forall>j<length xs - 1. read_at T this j s' = (Inr (if j < i then xs ! j else xs ! Suc j), s')"
  proof (intro allI impI)
    fix j
    assume j: "j < length xs - 1"
    then have "read_at T this j s' = (Inr (?ys ! j), s')"
      using read_at_holds [OF h, of j T] len by simp
    moreover have "?ys ! j = (if j < i then xs ! j else xs ! Suc j)"
      using j assms(2) by (auto simp: nth_append min_def)
    ultimately show "read_at T this j s' = (Inr (if j < i then xs ! j else xs ! Suc j), s')"
      by simp
  qed
  show r: "r = offset (Vector_begin this s') i" by (rule E(2))
  show "r = Vector_end this s' \<longleftrightarrow> i = length xs - 1"
    using r sz by (auto simp: Vector_end_def Vector_begin_def Size_def offset_def)
next
  assume "faults s = []"
  from Erase_quiet [OF assms this]
  show "\<exists>r s'. Erase T this (offset (Vector_begin this s) i) s = (Inr r, s')" .
qed

theorem Erase_shifts_left_witness:
  "holds 0 [10, 20] (st_full []) \<and> (0::nat) < length [10, 20 :: nat] \<and> faults (st_full []) = [] \<and>
   offset (Vector_begin 0 (st_full [])) 0 = (1, 0) \<and>
   fst (Erase T_nothrow 0 (1, 0) (st_full [])) = Inr (1, 0) \<and>
   Size 0 (snd (Erase T_nothrow 0 (1, 0) (st_full []))) = 1 \<and>
   fst (read_at T_nothrow 0 0 (snd (Erase T_nothrow 0 (1, 0) (st_full [])))) = Inr 20 \<and>
   holds 0 [20] (snd (Erase T_nothrow 0 (1, 0) (st_full [])))"
proof -
  let ?s = "st_full [] :: nat state"
  let ?r = "Erase T_nothrow 0 (1, 0) ?s"
  have q: "faults ?s = []" by (simp add: st_full_def)
  have b: "offset (Vector_begin 0 ?s) 0 = (1, 0)"
    by (simp add: Vector_begin_def st_full_def GetAddress_def offset_def)
  have i: "(0::nat) < length [10, 20 :: nat]" by simp
  have f: "fst ?r = Inr (1, 0)" by code_simp
  have e: "Erase T_nothrow 0 (offset (Vector_begin 0 ?s) 0) ?s = (Inr (1, 0), snd ?r)"
    unfolding b using f by (simp add: prod_eq_iff)
  from Erase_shifts_left [OF holds_st_full [of "[]"] i, of T_nothrow "(1, 0)" "snd ?r"] e
  have "Size 0 (snd ?r) = 1" "read_at T_nothrow 0 0 (snd ?r) = (Inr 20, snd ?r)"
    "holds 0 [20] (snd ?r)"
    by simp_all
  with holds_st_full [of "[]"] i q b f show ?thesis by simp
qed

subsection \<open>C7: the capacity never decreases\<close>

text \<open>
  Claim C7 as stated fails for move assignment: assigning an empty vector to the vector
  of capacity 3 leaves it with capacity 0.
\<close>

theorem move_assign_shrinks_counterexample:
  "Capacity 0 st_spare = 3 \<and> Capacity 0 (move_assign 0 1 st_spare) = 0"
  by (simp add: Capacity_def move_assign_def Swap_def Swap_values_def RawMemory_Swap_def put_def
      st_spare_def Vector_default_def RawMemory_default_def)

text \<open>
  Claim C7, amended. For every vector, whatever the outcome of the call (a result, an
  exception, a failed assertion), \<^verbatim>\<open>Reserve\<close>, \<^verbatim>\<open>Resize\<close> (to any size), \<^verbatim>\<open>EmplaceBack\<close>,
  \<^verbatim>\<open>PushBack\<close>, \<^verbatim>\<open>PopBack\<close>, \<^verbatim>\<open>Emplace\<close>, \<^verbatim>\<open>Insert\<close>, \<^verbatim>\<open>Erase\<close> and copy assignment
  leave it with at least the capacity it had. Move assignment and \<^verbatim>\<open>Swap\<close> exchange the
  two vectors' buffers: afterwards each has the capacity the other had, which may be
  smaller.
\<close>

theorem capacity_monotone:
  "Capacity this s \<le> Capacity this (snd (Reserve T this n s)) \<and>
   Capacity this s \<le> Capacity this (snd (Resize T this n s)) \<and>
   Capacity this s \<le> Capacity this (snd (EmplaceBack T this x s)) \<and>
   Capacity this s \<le> Capacity this (snd (PushBack T this x s)) \<and>
   Capacity this s \<le> Capacity this (snd (PopBack this s)) \<and>
   Capacity this s \<le> Capacity this (snd (Emplace T this pos x s)) \<and>
   Capacity this s \<le> Capacity this (snd (Insert T this pos x s)) \<and>
   Capacity this s \<le> Capacity this (snd (Erase T this pos s)) \<and>
   Capacity this s \<le> Capacity this (snd (copy_assign this rhs s)) \<and>
   Capacity this (move_assign this rhs s) = Capacity rhs s \<and>
   Capacity rhs (move_assign this rhs s) = Capacity this s \<and>
   Capacity this (Swap this rhs s) = Capacity rhs s \<and>
   Capacity rhs (Swap this rhs s) = Capacity this s"
proof -
  have m: "Capacity this (move_assign this rhs s) = Capacity rhs s \<and>
           Capacity rhs (move_assign this rhs s) = Capacity this s \<and>
           Capacity this (Swap this rhs s) = Capacity rhs s \<and>
           Capacity rhs (Swap this rhs s) = Capacity this s"
    by (simp add: Capacity_def move_assign_def Swap_def Swap_values_def RawMemory_Swap_def put_def)
  show ?thesis
    by (simp add: m Insert_def
      Reserve_capacity [OF surjective_pairing] Resize_capacity [OF surjective_pairing]
      EmplaceBack_capacity [OF surjective_pairing] PushBack_capacity [OF surjective_pairing]
      PopBack_capacity [OF surjective_pairing] Emplace_capacity [OF surjective_pairing]
      Erase_capacity [OF surjective_pairing] copy_assign_capacity [OF surjective_pairing])
qed

subsection \<open>C8: moving a raw buffer\<close>

text \<open>
  Claim C8 as stated fails for move assignment: assigning the buffer (7, capacity 4) to
  an object that owns the buffer (5, capacity 3) leaves the source owning (5, capacity
  3), not a null address with capacity 0.
\<close>

theorem RawMemory_move_assign_counterexample:
  "RawMemory_move_assign 0 1 raws 0 = \<lparr>buffer' = 7, capacity' = 4\<rparr> \<and>
   RawMemory_move_assign 0 1 raws 1 = \<lparr>buffer' = 5, capacity' = 3\<rparr> \<and>
   RawMemory_move_assign 0 1 raws 1 \<noteq> RawMemory_default"
  by (simp add: RawMemory_move_assign_def raws_def RawMemory_Swap_def RawMemory_default_def)

text \<open>
  Claim C8, amended. For every two distinct \<^verbatim>\<open>RawMemory\<close> objects, move construction
  gives the destination the source's address and capacity and leaves the source with a
  null address and capacity 0; move assignment gives the destination the source's
  address and capacity and gives the source the address and capacity the destination
  had (an exchange). Move assignment of an object to itself changes nothing.
\<close>

theorem RawMemory_move_semantics:
  assumes "this \<noteq> other"
  shows "RawMemory_move_ctor this other m this = m other \<and>
         RawMemory_move_ctor this other m other = RawMemory_default \<and>
         RawMemory_move_assign this other m this = m other \<and>
         RawMemory_move_assign this other m other = m this \<and>
         RawMemory_move_assign this this m = m"
  using assms
  by (simp add: RawMemory_move_ctor_def RawMemory_move_assign_def RawMemory_Swap_def
      RawMemory_default_def Let_def)

theorem RawMemory_move_semantics_witness:
  "(0::nat) \<noteq> 1 \<and>
   RawMemory_move_ctor 0 1 raws 0 = \<lparr>buffer' = 7, capacity' = 4\<rparr> \<and>
   RawMemory_move_ctor 0 1 raws 1 = \<lparr>buffer' = 0, capacity' = 0\<rparr> \<and>
   RawMemory_move_assign 0 1 raws 0 = \<lparr>buffer' = 7, capacity' = 4\<rparr> \<and>
   RawMemory_move_assign 0 1 raws 1 = \<lparr>buffer' = 5, capacity' = 3\<rparr>"
proof -
  have r: "raws 0 = \<lparr>buffer' = 5, capacity' = 3\<rparr>" "raws 1 = \<lparr>buffer' = 7, capacity' = 4\<rparr>"
    by (simp_all add: raws_def)
  from RawMemory_move_semantics [of 0 1 raws] r show ?thesis
    by (simp add: RawMemory_default_def)
qed

subsection \<open>C9: move construction of a vector\<close>

text \<open>
  Claim C9. Move construction is a function on states with no failing outcome. For
  every vector \<open>A\<close> that satisfies the invariant with elements \<open>xs\<close>, move-constructing a
  different object \<open>B\<close> from it leaves \<open>B\<close> satisfying the invariant with the same elements
  in the same order, in \<open>A\<close>'s buffer and with \<open>A\<close>'s length and capacity; no memory is
  written and no element operation is performed; \<open>A\<close> is left as a default-constructed
  vector, with \<^verbatim>\<open>Size() == 0\<close>.
\<close>

theorem Vector_move_transfers:
  assumes "b \<noteq> a" and "holds a xs s"
  shows "holds b xs (Vector_move b a s) \<and>
         Size b (Vector_move b a s) = Size a s \<and>
         Capacity b (Vector_move b a s) = Capacity a s \<and>
         vecs (Vector_move b a s) b = vecs s a \<and>
         heap (Vector_move b a s) = heap s \<and>
         trace (Vector_move b a s) = trace s \<and>
         vecs (Vector_move b a s) a = Vector_default \<and>
         Size a (Vector_move b a s) = 0"
  using assms
  by (simp add: Vector_move_def Swap_def Swap_values_def RawMemory_Swap_def Size_def
      Capacity_def holds_def Vector_default_def RawMemory_default_def put_def [of _ _ s])

theorem Vector_move_transfers_witness:
  "(1::nat) \<noteq> 0 \<and> holds 0 [10, 20] st_spare \<and> holds 1 [10, 20] (Vector_move 1 0 st_spare) \<and>
   Size 0 (Vector_move 1 0 st_spare) = 0 \<and> Capacity 1 (Vector_move 1 0 st_spare) = 3"
proof -
  have c: "Capacity 0 st_spare = 3" by (simp add: Capacity_def st_spare_def)
  from Vector_move_transfers [of 1 0 "[10, 20]" st_spare] holds_st_spare c show ?thesis by simp
qed

subsection \<open>C10: self-assignment\<close>

text \<open>
  Claim C10. Self-assignment is a no-op: copy assignment \<^verbatim>\<open>v = v\<close> returns normally,
  move assignment \<^verbatim>\<open>v = std::move(v)\<close> returns, and both leave the whole state as it was:
  the length, the capacity and every element of \<open>v\<close>, and everything else.
\<close>

theorem self_assignment_noop:
  "copy_assign this this s = (Inr (), s) \<and> move_assign this this s = s"
  by (simp add: copy_assign_def move_assign_def)

end
